theory Spec2Isabelle
  imports Main "HOL-Library.Sublist" "HOL-Library.Multiset" "HOL-Library.List_Lexorder"
    "HOL-Library.Char_ord"
begin

section \<open>The development sync engine (src/core/dev-sync-optimized.ts)\<close>

text \<open>
  \<open>DevSyncEngine\<close> runs on the Node event loop. An \<open>async\<close> method runs without
  interruption up to an \<open>await\<close>; other callbacks (a debounced trigger, a polling tick,
  a retry timer) run only while some execution is suspended there. The model keeps the
  fields of the class that the sync procedure reads and writes, together with what the
  event loop holds for it: the retry timers set by \<open>setTimeout\<close> and not yet fired, the
  number of executions of \<open>performSync\<close> that are suspended inside the \<open>try\<close> block, and
  the trace of the effects observed from outside.
\<close>

datatype error =
    ApiSpecError string string
  | GeneratorError string
  | Error string

datatype sync_event =
    SpecChanged
  | GenerationStarted
  | GenerationCompleted
  | GenerationFailed error

datatype effect =
    Emit sync_event
  | SetTimeout nat
  | Invoke string
  | Warn string
  | MaxRetriesExceeded
  | EmitStarted

datatype strategy = Smart | Aggressive | Conservative

record config =
  apiSpecPath :: string
  resolvedBackend :: string
  strategy :: strategy
  buildCommand :: "string option"
  autoLink :: bool
  runInitialGeneration :: bool

record engine =
  isRunning :: bool
  syncLock :: bool
  syncRetries :: nat
  lastSyncTime :: "nat option"
  lastGeneratedSpecHash :: "string option"
  timers :: "nat list"
  inFlight :: nat
  trace :: "effect list"

definition MAX_SYNC_RETRIES :: nat where
  "MAX_SYNC_RETRIES = 3"

definition new_engine :: engine where
  "new_engine = \<lparr> isRunning = False, syncLock = False, syncRetries = 0,
     lastSyncTime = None, lastGeneratedSpecHash = None, timers = [], inFlight = 0,
     trace = [] \<rparr>"

subsection \<open>What one execution meets in its environment\<close>

text \<open>
  The comparison fetch either rejects (network error, or the 5 second
  \<open>AbortSignal.timeout\<close>), or yields a response with its \<open>ok\<close> flag, its status text and
  the outcome of \<open>response.json()\<close>. The change detector lives in \<open>swagger-diff.js\<close>; here
  it is a parameter: its answer for a document, or the message of what it throws. Node's
  \<open>path.join\<close> is a parameter too.
\<close>

datatype 'doc fetch_outcome =
    FetchRejected string
  | FetchResponse bool string "string + 'doc"

record 'doc check_env =
  fetchOutcome :: "'doc fetch_outcome"
  fileExists :: bool
  fileParse :: "string + 'doc"
  hasSignificantChanges :: "'doc \<Rightarrow> string + bool"
  getCurrentHash :: "string option"
  pathJoin :: "string \<Rightarrow> string \<Rightarrow> string"

record 'doc sync_env = "'doc check_env" +
  generateOutcome :: "error option"
  buildOutcome :: "error option"
  linkOutcome :: "error option"
  now :: nat

definition isRuntimeSpec :: "string \<Rightarrow> bool" where
  "isRuntimeSpec p = (prefix ''runtime:'' p \<or> prefix ''/'' p)"

definition orUndefined :: "string option \<Rightarrow> string option" where
  "orUndefined h = (case h of None \<Rightarrow> None | Some v \<Rightarrow> if v = [] then None else Some v)"

definition warn :: "string \<Rightarrow> engine \<Rightarrow> engine" where
  "warn msg s = s\<lparr> trace := trace s @ [Warn msg] \<rparr>"

definition checkForMeaningfulChanges ::
  "config \<Rightarrow> ('doc, 'm) check_env_scheme \<Rightarrow> engine \<Rightarrow> (error + bool) \<times> engine" where
  "checkForMeaningfulChanges cfg env s =
     (if isRuntimeSpec (apiSpecPath cfg) then
        (case fetchOutcome env of
           FetchRejected msg \<Rightarrow>
             (Inr True, warn (''Error fetching spec for comparison: '' @ msg) s)
         | FetchResponse ok statusText body \<Rightarrow>
             if \<not> ok then
               (Inr True, warn (''Failed to fetch spec for comparison: '' @ statusText) s)
             else
               (case body of
                  Inl msg \<Rightarrow>
                    (Inr True, warn (''Error fetching spec for comparison: '' @ msg) s)
                | Inr currentSpec \<Rightarrow>
                    (case hasSignificantChanges env currentSpec of
                       Inl msg \<Rightarrow>
                         (Inr True, warn (''Error fetching spec for comparison: '' @ msg) s)
                     | Inr hasChanges \<Rightarrow>
                         (Inr hasChanges,
                          if hasChanges
                          then s\<lparr> lastGeneratedSpecHash := orUndefined (getCurrentHash env) \<rparr>
                          else s))))
      else
        (let specPath = pathJoin env (resolvedBackend cfg) (apiSpecPath cfg) in
         if \<not> fileExists env then
           (Inl (ApiSpecError (''API spec file not found: '' @ specPath) specPath), s)
         else
           (case fileParse env of
              Inl msg \<Rightarrow>
                (Inl (ApiSpecError (''Failed to parse API spec: '' @ msg) specPath), s)
            | Inr currentSpec \<Rightarrow>
                (case hasSignificantChanges env currentSpec of
                   Inl msg \<Rightarrow>
                     (Inl (ApiSpecError (''Failed to parse API spec: '' @ msg) specPath), s)
                 | Inr hasChanges \<Rightarrow> (Inr hasChanges, s)))))"

subsection \<open>Exceptions with state: sequencing and try / catch / finally\<close>

definition andThen ::
  "('s \<Rightarrow> (error + 'a) \<times> 's) \<Rightarrow> ('a \<Rightarrow> 's \<Rightarrow> (error + 'b) \<times> 's) \<Rightarrow> 's \<Rightarrow> (error + 'b) \<times> 's" where
  "andThen m f s = (case m s of (Inl e, s') \<Rightarrow> (Inl e, s') | (Inr v, s') \<Rightarrow> f v s')"

definition tryCatchFinally ::
  "('s \<Rightarrow> (error + 'a) \<times> 's) \<Rightarrow> (error \<Rightarrow> 's \<Rightarrow> (error + 'a) \<times> 's) \<Rightarrow> ('s \<Rightarrow> 's)
     \<Rightarrow> 's \<Rightarrow> (error + 'a) \<times> 's" where
  "tryCatchFinally body handler fin s =
     (case body s of
        (Inl e, s1) \<Rightarrow> (case handler e s1 of (r, s2) \<Rightarrow> (r, fin s2))
      | (Inr v, s1) \<Rightarrow> (Inr v, fin s1))"

subsection \<open>performSync\<close>

text \<open>
  \<open>generateClient\<close>, \<open>buildClient\<close> and \<open>linkPackages\<close> run subprocesses; of each the
  model keeps that it was invoked and whether it threw.
\<close>

definition invoke :: "string \<Rightarrow> error option \<Rightarrow> engine \<Rightarrow> (error + unit) \<times> engine" where
  "invoke name outcome s =
     (case outcome of
        Some e \<Rightarrow> (Inl e, s\<lparr> trace := trace s @ [Invoke name] \<rparr>)
      | None \<Rightarrow> (Inr (), s\<lparr> trace := trace s @ [Invoke name] \<rparr>))"

definition skip :: "engine \<Rightarrow> (error + unit) \<times> engine" where
  "skip s = (Inr (), s)"

definition emit :: "sync_event \<Rightarrow> engine \<Rightarrow> engine" where
  "emit ev s = s\<lparr> trace := trace s @ [Emit ev] \<rparr>"

text \<open>The statements of the \<open>try\<close> block that follow the first \<open>await\<close>.\<close>

definition syncSteps :: "config \<Rightarrow> 'doc sync_env \<Rightarrow> engine \<Rightarrow> (error + unit) \<times> engine" where
  "syncSteps cfg env =
     andThen (checkForMeaningfulChanges cfg env) (\<lambda>hasChanges.
       if \<not> hasChanges \<and> strategy cfg = Smart then skip
       else
         andThen (invoke ''generateClient'' (generateOutcome env)) (\<lambda>_.
         andThen (if buildCommand cfg \<noteq> None
                  then invoke ''buildClient'' (buildOutcome env) else skip) (\<lambda>_.
         andThen (if autoLink cfg
                  then invoke ''linkPackages'' (linkOutcome env) else skip) (\<lambda>_.
           (\<lambda>s. (Inr (),
              emit GenerationCompleted
                (s\<lparr> lastSyncTime := Some (now env), syncRetries := 0 \<rparr>)))))))"

text \<open>The \<open>catch\<close> block: the failed event, then a retry timer or the reset.\<close>

definition onSyncError :: "error \<Rightarrow> engine \<Rightarrow> (error + unit) \<times> engine" where
  "onSyncError e s =
     (let s1 = emit (GenerationFailed e) s in
      if syncRetries s1 < MAX_SYNC_RETRIES then
        (let n = syncRetries s1 + 1; retryDelay = 2 ^ n * 1000 in
         (Inr (), s1\<lparr> syncRetries := n, timers := timers s1 @ [retryDelay],
                       trace := trace s1 @ [SetTimeout retryDelay] \<rparr>))
      else
        (Inr (), s1\<lparr> syncRetries := 0, trace := trace s1 @ [MaxRetriesExceeded] \<rparr>))"

definition releaseLock :: "engine \<Rightarrow> engine" where
  "releaseLock s = s\<lparr> syncLock := False, inFlight := inFlight s - 1 \<rparr>"

text \<open>
  The part of \<open>performSync\<close> that runs at once when it is called: the lock test, taking
  the lock, the started event. The result tells whether the execution went on.
\<close>

definition performSync_enter :: "engine \<Rightarrow> bool \<times> engine" where
  "performSync_enter s =
     (if syncLock s then (False, s)
      else (True, emit GenerationStarted
                    (s\<lparr> syncLock := True, inFlight := inFlight s + 1 \<rparr>)))"

text \<open>The rest of that execution, from the first \<open>await\<close> to the end of \<open>finally\<close>.\<close>

definition performSync_resume ::
  "config \<Rightarrow> 'doc sync_env \<Rightarrow> engine \<Rightarrow> (error + unit) \<times> engine" where
  "performSync_resume cfg env = tryCatchFinally (syncSteps cfg env) onSyncError releaseLock"

text \<open>One call of \<open>performSync\<close> that nothing interrupts.\<close>

definition performSync :: "config \<Rightarrow> 'doc sync_env \<Rightarrow> engine \<Rightarrow> (error + unit) \<times> engine" where
  "performSync cfg env s =
     (case performSync_enter s of
        (False, s') \<Rightarrow> (Inr (), s')
      | (True, s') \<Rightarrow> performSync_resume cfg env s')"

text \<open>
  The callback handed to \<open>setTimeout\<close> in the \<open>catch\<close> block: it clears the lock, then
  calls \<open>performSync\<close>.
\<close>

definition retryCallback :: "engine \<Rightarrow> engine" where
  "retryCallback s =
     (case timers s of
        [] \<Rightarrow> s
      | d # ds \<Rightarrow> snd (performSync_enter (s\<lparr> timers := ds, syncLock := False \<rparr>)))"

text \<open>
  \<open>start\<close>: nothing when already running; polling for a runtime spec, else the file
  watcher, whose set-up may throw and is rethrown; then the initial sync when configured,
  awaited; then the \<open>started\<close> event.
\<close>

definition start ::
  "config \<Rightarrow> error option \<Rightarrow> 'doc sync_env \<Rightarrow> engine \<Rightarrow> (error + unit) \<times> engine" where
  "start cfg watchOutcome env s =
     (if isRunning s then (Inr (), s)
      else
        andThen
          (\<lambda>s. if isRuntimeSpec (apiSpecPath cfg) then (Inr (), s\<lparr> isRunning := True \<rparr>)
                else (case watchOutcome of
                        Some e \<Rightarrow> (Inl e, s)
                      | None \<Rightarrow> (Inr (), s\<lparr> isRunning := True \<rparr>)))
          (\<lambda>_. andThen
             (if runInitialGeneration cfg then performSync cfg env else skip)
             (\<lambda>_ s. (Inr (), s\<lparr> trace := trace s @ [EmitStarted] \<rparr>))) s)"

subsection \<open>The event loop around the engine\<close>

datatype 'doc loop_event =
    Trigger
  | RetryTimer
  | Settle "'doc sync_env"

fun step :: "config \<Rightarrow> engine \<Rightarrow> 'doc loop_event \<Rightarrow> engine" where
  "step cfg s Trigger = snd (performSync_enter s)"
| "step cfg s RetryTimer = retryCallback s"
| "step cfg s (Settle env) =
     (if inFlight s = 0 then s else snd (performSync_resume cfg env s))"

definition run :: "config \<Rightarrow> 'doc loop_event list \<Rightarrow> engine \<Rightarrow> engine" where
  "run cfg evs s = foldl (step cfg) s evs"

subsection \<open>Observations on traces, and the always-failing scenario\<close>

fun scheduledDelays :: "effect list \<Rightarrow> nat list" where
  "scheduledDelays [] = []"
| "scheduledDelays (SetTimeout d # es) = d # scheduledDelays es"
| "scheduledDelays (_ # es) = scheduledDelays es"

fun startedCount :: "effect list \<Rightarrow> nat" where
  "startedCount [] = 0"
| "startedCount (Emit GenerationStarted # es) = Suc (startedCount es)"
| "startedCount (_ # es) = startedCount es"

text \<open>
  An engine left alone with a procedure that fails: the suspended execution settles; if
  that left a retry timer, the timer fires and the loop goes on. The fuel bounds the
  number of executions; \<open>None\<close> means the fuel ran out first.
\<close>

fun retryLoop :: "nat \<Rightarrow> config \<Rightarrow> 'doc sync_env \<Rightarrow> engine \<Rightarrow> engine option" where
  "retryLoop 0 cfg env s = None"
| "retryLoop (Suc fuel) cfg env s =
     (let s1 = step cfg s (Settle env) in
      if timers s1 = [] then Some s1
      else retryLoop fuel cfg env (step cfg s1 (RetryTimer :: 'doc loop_event)))"

subsection \<open>Concrete configurations and environments\<close>

text \<open>What \<open>path.join\<close> returns on the paths used below, which need no normalization.\<close>

definition slashJoin :: "string \<Rightarrow> string \<Rightarrow> string" where
  "slashJoin a b = a @ ''/'' @ b"

definition static_cfg :: config where
  "static_cfg = \<lparr> apiSpecPath = ''swagger.json'', resolvedBackend = ''/srv/backend'',
     strategy = Smart, buildCommand = Some ''npm run build'', autoLink = True,
     runInitialGeneration = True \<rparr>"

definition runtime_cfg :: config where
  "runtime_cfg = \<lparr> apiSpecPath = ''runtime:/openapi.json'', resolvedBackend = ''/srv/backend'',
     strategy = Smart, buildCommand = None, autoLink = False,
     runInitialGeneration = True \<rparr>"

definition unchanged_env :: "unit sync_env" where
  "unchanged_env = \<lparr> fetchOutcome = FetchResponse True ''OK'' (Inr ()), fileExists = True,
     fileParse = Inr (), hasSignificantChanges = (\<lambda>_. Inr False), getCurrentHash = None, pathJoin = slashJoin,
     generateOutcome = None, buildOutcome = None, linkOutcome = None, now = 0 \<rparr>"

definition unreachable_env :: "unit sync_env" where
  "unreachable_env = \<lparr> fetchOutcome = FetchRejected ''ECONNREFUSED'', fileExists = False,
     fileParse = Inl ''ENOENT'', hasSignificantChanges = (\<lambda>_. Inr True),
     getCurrentHash = None, pathJoin = slashJoin,
     generateOutcome = Some (ApiSpecError
       ''Failed to fetch runtime API spec after 5 attempts'' ''http://localhost:8000/openapi.json''),
     buildOutcome = None, linkOutcome = None, now = 0 \<rparr>"

definition generator_fails_env :: "unit sync_env" where
  "generator_fails_env = \<lparr> fetchOutcome = FetchRejected ''ECONNREFUSED'', fileExists = True,
     fileParse = Inr (), hasSignificantChanges = (\<lambda>_. Inr True), getCurrentHash = None, pathJoin = slashJoin,
     generateOutcome = Some (Error ''Command failed: npx @hey-api/openapi-ts''),
     buildOutcome = None, linkOutcome = None, now = 0 \<rparr>"

section \<open>Freeing a port (src/utils/port-manager.ts)\<close>

text \<open>
  \<open>PortManager.freePort\<close> talks to the operating system: it asks whether the port is in
  use, asks which processes own it, sends signals, and sleeps. The environment gives the
  answers by the number of the call (the first call has number 0); the function returns
  its outcome and the trace of what it did. \<open>isPortInUse\<close>, \<open>getProcessesUsingPort\<close> and
  \<open>forceKillProcess\<close> catch their own errors, and a failing kill is caught in the loop,
  so none of them changes the control flow by throwing.
\<close>

datatype kill_method = Graceful | Sigkill | ForceKill

datatype port_effect =
    IsPortInUse
  | GetProcessesUsingPort
  | Kill nat kill_method string
  | Wait nat
  | HasElevatedPrivileges
  | ElevatedTip

datatype port_error =
    NoProcessFound nat
  | FreeFailed nat nat

record port_env =
  inUseAt :: "nat \<Rightarrow> bool"
  ownersAt :: "nat \<Rightarrow> string list"
  elevated :: bool

definition maxAttempts :: nat where
  "maxAttempts = 5"

definition initialDelay :: nat where
  "initialDelay = 500"

definition maxDelay :: nat where
  "maxDelay = 5000"

definition backoffMultiplier :: nat where
  "backoffMultiplier = 2"

text \<open>The branch taken for a process in a given attempt.\<close>

definition killMethod :: "nat \<Rightarrow> kill_method" where
  "killMethod attempt =
     (if attempt = 1 then Graceful else if attempt = 2 then Sigkill else ForceKill)"

text \<open>\<open>Array.prototype.join(',')\<close>.\<close>

fun joinComma :: "string list \<Rightarrow> string" where
  "joinComma [] = []"
| "joinComma [x] = x"
| "joinComma (x # y # ys) = x @ '','' @ joinComma (y # ys)"

text \<open>
  The \<open>while\<close> loop. Its result tells whether it was left by the \<open>return\<close> on a freed
  port (\<open>True\<close>) or by its condition (\<open>False\<close>). The check after attempt \<open>n\<close> is call
  number \<open>n\<close> of \<open>isPortInUse\<close>, and the owners resolved after it are call number \<open>n\<close> of
  \<open>getProcessesUsingPort\<close>, since each was called once before the loop.
\<close>

function freePortLoop ::
  "port_env \<Rightarrow> nat \<Rightarrow> nat \<Rightarrow> bool \<Rightarrow> string list \<Rightarrow> port_effect list
     \<Rightarrow> bool \<times> port_effect list" where
  "freePortLoop env attempt delay portFreed pids tr =
     (if attempt < maxAttempts \<and> \<not> portFreed then
        (let attempt' = attempt + 1;
             tr1 = tr @ map (Kill attempt' (killMethod attempt')) pids
                      @ [Wait delay, IsPortInUse];
             portFreed' = (\<not> inUseAt env attempt')
         in if portFreed' then (True, tr1)
            else
              (let newPids = ownersAt env attempt';
                   pids' = (if newPids \<noteq> [] \<and> joinComma newPids \<noteq> joinComma pids
                            then newPids else pids);
                   delay' = min (delay * backoffMultiplier) maxDelay
               in freePortLoop env attempt' delay' portFreed' pids'
                    (tr1 @ [GetProcessesUsingPort])))
      else (False, tr))"
  by pat_completeness auto
termination
  by (relation "measure (\<lambda>(env, attempt, delay, portFreed, pids, tr). maxAttempts - attempt)")
    auto

definition freePort :: "port_env \<Rightarrow> nat \<Rightarrow> (port_error + unit) \<times> port_effect list" where
  "freePort env port =
     (if \<not> inUseAt env 0 then (Inr (), [IsPortInUse])
      else
        (let pids = ownersAt env 0; tr = [IsPortInUse, GetProcessesUsingPort] in
         if pids = [] then (Inl (NoProcessFound port), tr)
         else
           (case freePortLoop env 0 initialDelay False pids tr of
              (True, tr') \<Rightarrow> (Inr (), tr')
            | (False, tr') \<Rightarrow>
                (Inl (FreeFailed port maxAttempts),
                 tr' @ [HasElevatedPrivileges] @ (if elevated env then [] else [ElevatedTip])))))"

subsection \<open>Observations on the trace of freePort\<close>

fun waits :: "port_effect list \<Rightarrow> nat list" where
  "waits [] = []"
| "waits (Wait d # es) = d # waits es"
| "waits (_ # es) = waits es"

text \<open>The processes signalled in one attempt, with the method used, in order.\<close>

fun killsIn :: "nat \<Rightarrow> port_effect list \<Rightarrow> (kill_method \<times> string) list" where
  "killsIn a [] = []"
| "killsIn a (Kill a' m p # es) = (if a' = a then (m, p) # killsIn a es else killsIn a es)"
| "killsIn a (_ # es) = killsIn a es"

text \<open>
  Every wait is followed at once by a check of the port, and every check that comes
  after a wait and is not the end of the trace by a new resolution of the owners.
\<close>

fun recheckedAfterWait :: "port_effect list \<Rightarrow> bool" where
  "recheckedAfterWait [] = True"
| "recheckedAfterWait [Wait d] = False"
| "recheckedAfterWait [Wait d, e] = (e = IsPortInUse)"
| "recheckedAfterWait (Wait d # e # e' # es) =
     (e = IsPortInUse \<and> e' = GetProcessesUsingPort \<and> recheckedAfterWait es)"
| "recheckedAfterWait (_ # es) = recheckedAfterWait es"

text \<open>
  The update of \<open>pids\<close> at the end of an iteration, from the owners resolved by call
  number \<open>n\<close>; and the owner list as the loop holds it when attempt \<open>n + 1\<close> begins.
\<close>

definition nextPids :: "port_env \<Rightarrow> nat \<Rightarrow> string list \<Rightarrow> string list" where
  "nextPids env n pids =
     (if ownersAt env n \<noteq> [] \<and> joinComma (ownersAt env n) \<noteq> joinComma pids
      then ownersAt env n else pids)"

fun ownersHeld :: "port_env \<Rightarrow> nat \<Rightarrow> string list" where
  "ownersHeld env 0 = ownersAt env 0"
| "ownersHeld env (Suc n) = nextPids env (Suc n) (ownersHeld env n)"

text \<open>
  The delays of \<open>n\<close> attempts in a row, the first after a wait of \<open>d\<close>: each next one is
  \<open>Math.min(delay * backoffMultiplier, maxDelay)\<close>.
\<close>

fun backoff :: "nat \<Rightarrow> nat \<Rightarrow> nat list" where
  "backoff d 0 = []"
| "backoff d (Suc n) = d # backoff (min (d * backoffMultiplier) maxDelay) n"

subsection \<open>Concrete ports\<close>

definition free_env :: port_env where
  "free_env = \<lparr> inUseAt = (\<lambda>_. False), ownersAt = (\<lambda>_. []), elevated = False \<rparr>"

definition stubborn_env :: port_env where
  "stubborn_env = \<lparr> inUseAt = (\<lambda>_. True),
     ownersAt = (\<lambda>n. if n < 2 then [''4242''] else [''4242'', ''5151'']),
     elevated = False \<rparr>"

section \<open>The service state machine (src/core/services/base-service.ts)\<close>

text \<open>
  Of \<open>BaseService\<close> the model keeps the state, the handle of the child process, the start
  time, the stored error, and the \<open>stateChange\<close> events it has emitted (old and new
  state). Console output and the logger are left out.
\<close>

datatype ServiceState = STOPPED | STARTING | RUNNING | STOPPING | ERROR

datatype service_error = ServiceStartError string string int

record service =
  configName :: string
  configPort :: "nat option"
  state :: ServiceState
  process :: "nat option"
  startTime :: "nat option"
  error :: "string option"
  stateChanges :: "(ServiceState \<times> ServiceState) list"

definition setState :: "ServiceState \<Rightarrow> service \<Rightarrow> service" where
  "setState st s = s\<lparr> state := st, stateChanges := stateChanges s @ [(state s, st)] \<rparr>"

text \<open>
  What \<open>start\<close> meets: whether \<open>checkPort\<close> throws (its message), the handle of the
  spawned process or what \<open>startProcess\<close> throws, whether \<open>waitForReady\<close> throws, the
  exit code of the process when the failure is reported, and the time.
\<close>

record start_env =
  checkPortOutcome :: "string option"
  spawned :: "string + nat"
  readyOutcome :: "string option"
  exitCode :: "int option"
  startedAt :: nat

definition start_try :: "start_env \<Rightarrow> service \<Rightarrow> (string + unit) \<times> service" where
  "start_try env s =
     (case (if configPort s \<noteq> None \<and> configPort s \<noteq> Some 0 then checkPortOutcome env else None) of
        Some msg \<Rightarrow> (Inl msg, s)
      | None \<Rightarrow>
          (case spawned env of
             Inl msg \<Rightarrow> (Inl msg, s)
           | Inr pid \<Rightarrow>
               (let s1 = s\<lparr> process := Some pid \<rparr> in
                case readyOutcome env of
                  Some msg \<Rightarrow> (Inl msg, s1)
                | None \<Rightarrow>
                    (Inr (), setState RUNNING (s1\<lparr> startTime := Some (startedAt env) \<rparr>)))))"

definition service_start :: "start_env \<Rightarrow> service \<Rightarrow> (service_error + unit) \<times> service" where
  "service_start env s =
     (if state s \<noteq> STOPPED then (Inr (), s)
      else
        (case start_try env ((setState STARTING s)\<lparr> error := None \<rparr>) of
           (Inr u, s1) \<Rightarrow> (Inr (), s1)
         | (Inl msg, s1) \<Rightarrow>
             (Inl (ServiceStartError (configName s1) msg
                    (case process s1 of
                       None \<Rightarrow> - 1
                     | Some p \<Rightarrow> (case exitCode env of None \<Rightarrow> - 1 | Some c \<Rightarrow> c))),
              setState ERROR (s1\<lparr> error := Some msg \<rparr>))))"

text \<open>
  \<open>stop\<close> in two parts, around its one \<open>await\<close> (the kill of the child process): the
  state test and the move to \<open>stopping\<close>; then, when the kill has settled, the move to
  \<open>stopped\<close>, or the error that the kill threw.
\<close>

definition stop_begin :: "service \<Rightarrow> bool \<times> service" where
  "stop_begin s = (if state s = STOPPED then (False, s) else (True, setState STOPPING s))"

definition stop_finish :: "string option \<Rightarrow> service \<Rightarrow> (string + unit) \<times> service" where
  "stop_finish killOutcome s =
     (if process s \<noteq> None then
        (case killOutcome of
           Some msg \<Rightarrow> (Inl msg, s)
         | None \<Rightarrow> (Inr (), setState STOPPED (s\<lparr> process := None \<rparr>)))
      else (Inr (), setState STOPPED s))"

definition service_stop :: "string option \<Rightarrow> service \<Rightarrow> (string + unit) \<times> service" where
  "service_stop killOutcome s =
     (case stop_begin s of
        (False, s') \<Rightarrow> (Inr (), s')
      | (True, s') \<Rightarrow> stop_finish killOutcome s')"

text \<open>
  The handler of the \<open>exit\<close> event of the child process. The exit code is a number, or
  null when a signal ended the process; the stored error carries it in its message, as
  the template string renders it.
\<close>

function showNat :: "nat \<Rightarrow> string" where
  "showNat n =
     (if n < 10 then [char_of (48 + n)]
      else showNat (n div 10) @ [char_of (48 + n mod 10)])"
  by pat_completeness auto
termination
  by (relation "measure (\<lambda>n. n)") auto

declare showNat.simps [simp del]

definition showCode :: "int option \<Rightarrow> string" where
  "showCode code =
     (case code of
        None \<Rightarrow> ''null''
      | Some c \<Rightarrow> if c < 0 then ''-'' @ showNat (nat (- c)) else showNat (nat c))"

definition process_exit :: "int option \<Rightarrow> service \<Rightarrow> service" where
  "process_exit code s =
     (if state s = STOPPING then s
      else if state s = RUNNING then
        setState ERROR
          (s\<lparr> error := Some (''Process exited unexpectedly with code '' @ showCode code) \<rparr>)
      else s)"

text \<open>The calls and events a service can meet, and a run of them.\<close>

datatype service_event =
    Start start_env
  | Stop "string option"
  | StopBegin
  | StopFinish "string option"
  | Exit "int option"

fun service_step :: "service \<Rightarrow> service_event \<Rightarrow> service" where
  "service_step s (Start env) = snd (service_start env s)"
| "service_step s (Stop k) = snd (service_stop k s)"
| "service_step s StopBegin = snd (stop_begin s)"
| "service_step s (StopFinish k) = (if state s = STOPPING then snd (stop_finish k s) else s)"
| "service_step s (Exit code) = process_exit code s"

definition new_service :: "string \<Rightarrow> nat option \<Rightarrow> service" where
  "new_service n p = \<lparr> configName = n, configPort = p, state = STOPPED, process = None,
     startTime = None, error = None, stateChanges = [] \<rparr>"

definition ready_env :: start_env where
  "ready_env = \<lparr> checkPortOutcome = None, spawned = Inr 4711, readyOutcome = None,
     exitCode = None, startedAt = 0 \<rparr>"

definition running_service :: service where
  "running_service = snd (service_start ready_env (new_service ''backend'' (Some 4000)))"

section \<open>Shutdown (src/core/orchestrator.ts and utils/shutdown-manager.ts)\<close>

text \<open>
  Two versions of the stop sequence exist: \<open>DevSyncOrchestrator.stop\<close> with its own
  \<open>isShuttingDown\<close> flag, under the public \<open>shutdown\<close> of \<open>orchestrator.ts\<close>; and
  \<open>ShutdownManager.shutdown\<close>, which the later orchestrator calls. Both test and set the
  flag, call \<open>stop\<close> on the sync engine and on every service, and only then reach their
  first \<open>await\<close>; the flag is cleared at the end. The model splits each at that
  \<open>await\<close>: entering, which runs at once when the function is called, and the rest of
  the sequence, which runs when the kills have settled. \<open>inProgress\<close> counts the
  sequences that were entered and have not finished. \<open>process.exit\<close> ends the process:
  once it is among the effects, nothing more happens.
\<close>

datatype shutdown_effect =
    SyncEngineStop
  | StopFailed string string
  | KillAll
  | UnlinkPackages
  | RunHandlers
  | ConfigWatcherClose
  | ShutdownComplete
  | ProcessExit nat
  | AlreadyInProgress

record orchestrator =
  isShuttingDown :: bool
  syncEngine :: bool
  services :: "service list"
  configWatcher :: bool
  linkedPackages :: "string list"
  inProgress :: nat
  effects :: "shutdown_effect list"

record stop_env =
  killOutcomeAt :: "nat \<Rightarrow> string option"
  killAllOutcome :: "string option"
  closeOutcome :: "string option"

record shutdown_options =
  keepConfigWatcher :: bool
  exitProcess :: bool

definition logged :: "shutdown_effect list \<Rightarrow> orchestrator \<Rightarrow> orchestrator" where
  "logged es orc = orc\<lparr> effects := effects orc @ es \<rparr>"

text \<open>
  Stopping the services. \<open>stop\<close> is called on each of them before the \<open>await\<close>: each
  runs up to its own kill, or to its end when it has no process to kill. When the kills
  have settled, each service that was left \<open>stopping\<close> finishes with the outcome of its
  own kill (by its position in the map); a failure is logged with the name of the
  service and goes no further.
\<close>

definition stop_prefix :: "service \<Rightarrow> service" where
  "stop_prefix s =
     (case stop_begin s of
        (False, s') \<Rightarrow> s'
      | (True, s') \<Rightarrow> if process s' \<noteq> None then s' else snd (stop_finish None s'))"

definition beginServices :: "orchestrator \<Rightarrow> orchestrator" where
  "beginServices orc = orc\<lparr> services := map stop_prefix (services orc) \<rparr>"

definition finishServices :: "stop_env \<Rightarrow> orchestrator \<Rightarrow> orchestrator" where
  "finishServices env orc =
     (let rs = map (\<lambda>(i, s). if state s = STOPPING then stop_finish (killOutcomeAt env i) s
                             else (Inr (), s))
                 (enumerate 0 (services orc))
      in logged (concat (map (\<lambda>(r, s). case r of
                                          Inl msg \<Rightarrow> [StopFailed (configName s) msg]
                                        | Inr u \<Rightarrow> []) rs))
           (orc\<lparr> services := map snd rs \<rparr>))"

subsection \<open>DevSyncOrchestrator.stop and shutdown (orchestrator.ts)\<close>

definition stop_enter :: "orchestrator \<Rightarrow> bool \<times> orchestrator" where
  "stop_enter orc =
     (if isShuttingDown orc then (False, orc)
      else
        (let orc1 = orc\<lparr> isShuttingDown := True, inProgress := inProgress orc + 1 \<rparr>;
             orc2 = (if syncEngine orc1
                     then logged [SyncEngineStop] (orc1\<lparr> syncEngine := False \<rparr>)
                     else orc1)
         in (True, beginServices orc2)))"

definition stop_sequence :: "stop_env \<Rightarrow> orchestrator \<Rightarrow> (string + unit) \<times> orchestrator" where
  "stop_sequence env orc =
     (let orc2 = logged [KillAll] (finishServices env orc)
      in case killAllOutcome env of
           Some msg \<Rightarrow> (Inl msg, orc2\<lparr> inProgress := inProgress orc2 - 1 \<rparr>)
         | None \<Rightarrow>
             (let orc3 = logged [UnlinkPackages] (orc2\<lparr> linkedPackages := [] \<rparr>) in
              if configWatcher orc3 then
                (case closeOutcome env of
                   Some msg \<Rightarrow>
                     (Inl msg, (logged [ConfigWatcherClose] orc3)
                                 \<lparr> inProgress := inProgress orc3 - 1 \<rparr>)
                 | None \<Rightarrow>
                     (Inr (), (logged [ConfigWatcherClose, ShutdownComplete] orc3)
                                \<lparr> configWatcher := False, isShuttingDown := False,
                                   inProgress := inProgress orc3 - 1 \<rparr>))
              else
                (Inr (), (logged [ShutdownComplete] orc3)
                           \<lparr> isShuttingDown := False, inProgress := inProgress orc3 - 1 \<rparr>)))"

text \<open>A call of \<open>stop\<close> that nothing interrupts.\<close>

definition orchestrator_stop :: "stop_env \<Rightarrow> orchestrator \<Rightarrow> (string + unit) \<times> orchestrator" where
  "orchestrator_stop env orc =
     (case stop_enter orc of
        (False, orc') \<Rightarrow> (Inr (), orc')
      | (True, orc') \<Rightarrow> stop_sequence env orc')"

text \<open>
  The public \<open>shutdown\<close> of \<open>orchestrator.ts\<close> is \<open>await this.stop(); process.exit(0)\<close>.
  When \<open>stop\<close> returns at its flag test, the \<open>await\<close> has nothing to wait for and the exit
  follows at once; otherwise the exit follows the end of the sequence.
\<close>

definition orchestrator_shutdown_enter :: "orchestrator \<Rightarrow> bool \<times> orchestrator" where
  "orchestrator_shutdown_enter orc =
     (case stop_enter orc of
        (False, orc') \<Rightarrow> (False, logged [ProcessExit 0] orc')
      | (True, orc') \<Rightarrow> (True, orc'))"

definition orchestrator_shutdown_resume ::
  "stop_env \<Rightarrow> orchestrator \<Rightarrow> (string + unit) \<times> orchestrator" where
  "orchestrator_shutdown_resume env orc =
     (case stop_sequence env orc of
        (Inl msg, orc') \<Rightarrow> (Inl msg, orc')
      | (Inr u, orc') \<Rightarrow> (Inr (), logged [ProcessExit 0] orc'))"

definition orchestrator_shutdown ::
  "stop_env \<Rightarrow> orchestrator \<Rightarrow> (string + unit) \<times> orchestrator" where
  "orchestrator_shutdown env orc =
     (case orchestrator_shutdown_enter orc of
        (False, orc') \<Rightarrow> (Inr (), orc')
      | (True, orc') \<Rightarrow> orchestrator_shutdown_resume env orc')"

subsection \<open>ShutdownManager.shutdown\<close>

definition shutdown_enter :: "orchestrator \<Rightarrow> bool \<times> orchestrator" where
  "shutdown_enter orc =
     (if isShuttingDown orc then (False, logged [AlreadyInProgress] orc)
      else
        (let orc1 = orc\<lparr> isShuttingDown := True, inProgress := inProgress orc + 1 \<rparr>;
             orc2 = (if syncEngine orc1 then logged [SyncEngineStop] orc1 else orc1)
         in (True, beginServices orc2)))"

text \<open>
  The rest of the \<open>try\<close> block. The result says whether the process has exited;
  \<open>finally\<close> clears the flag only when it has not.
\<close>

definition shutdown_try ::
  "shutdown_options \<Rightarrow> stop_env \<Rightarrow> orchestrator \<Rightarrow> (string + bool) \<times> orchestrator" where
  "shutdown_try opts env orc =
     (let orc2 = logged [KillAll] (finishServices env orc)
      in case killAllOutcome env of
           Some msg \<Rightarrow> (Inl msg, orc2)
         | None \<Rightarrow>
             (let orc3 = logged [UnlinkPackages, RunHandlers] (orc2\<lparr> linkedPackages := [] \<rparr>) in
              if \<not> keepConfigWatcher opts \<and> configWatcher orc3 then
                (case closeOutcome env of
                   Some msg \<Rightarrow> (Inl msg, logged [ConfigWatcherClose] orc3)
                 | None \<Rightarrow>
                     (let orc4 = logged [ConfigWatcherClose, ShutdownComplete] orc3 in
                      if exitProcess opts then (Inr True, logged [ProcessExit 0] orc4)
                      else (Inr False, orc4)))
              else
                (let orc4 = logged [ShutdownComplete] orc3 in
                 if exitProcess opts then (Inr True, logged [ProcessExit 0] orc4)
                 else (Inr False, orc4))))"

definition shutdown_sequence ::
  "shutdown_options \<Rightarrow> stop_env \<Rightarrow> orchestrator \<Rightarrow> (string + unit) \<times> orchestrator" where
  "shutdown_sequence opts env orc =
     (case shutdown_try opts env orc of
        (Inr exited, orc') \<Rightarrow>
          (Inr (), if exited then orc'\<lparr> inProgress := inProgress orc' - 1 \<rparr>
                   else orc'\<lparr> isShuttingDown := False, inProgress := inProgress orc' - 1 \<rparr>)
      | (Inl msg, orc') \<Rightarrow>
          (Inl msg, if exitProcess opts
                    then (logged [ProcessExit 1] orc')\<lparr> inProgress := inProgress orc' - 1 \<rparr>
                    else orc'\<lparr> isShuttingDown := False, inProgress := inProgress orc' - 1 \<rparr>))"

subsection \<open>Overlapping calls\<close>

fun isProcessExit :: "shutdown_effect \<Rightarrow> bool" where
  "isProcessExit (ProcessExit n) = True"
| "isProcessExit _ = False"

definition processExited :: "orchestrator \<Rightarrow> bool" where
  "processExited orc = list_ex isProcessExit (effects orc)"

datatype shutdown_event =
    CallStop
  | SettleStop stop_env
  | CallOrchestratorShutdown
  | SettleOrchestratorShutdown stop_env
  | CallShutdown
  | SettleShutdown shutdown_options stop_env

fun live_step :: "orchestrator \<Rightarrow> shutdown_event \<Rightarrow> orchestrator" where
  "live_step orc CallStop = snd (stop_enter orc)"
| "live_step orc (SettleStop env) =
     (if inProgress orc = 0 then orc else snd (stop_sequence env orc))"
| "live_step orc CallOrchestratorShutdown = snd (orchestrator_shutdown_enter orc)"
| "live_step orc (SettleOrchestratorShutdown env) =
     (if inProgress orc = 0 then orc else snd (orchestrator_shutdown_resume env orc))"
| "live_step orc CallShutdown = snd (shutdown_enter orc)"
| "live_step orc (SettleShutdown opts env) =
     (if inProgress orc = 0 then orc else snd (shutdown_sequence opts env orc))"

definition shutdown_step :: "orchestrator \<Rightarrow> shutdown_event \<Rightarrow> orchestrator" where
  "shutdown_step orc ev = (if processExited orc then orc else live_step orc ev)"

definition shutdown_run :: "shutdown_event list \<Rightarrow> orchestrator \<Rightarrow> orchestrator" where
  "shutdown_run evs orc = foldl shutdown_step orc evs"

fun killAllCount :: "shutdown_effect list \<Rightarrow> nat" where
  "killAllCount [] = 0"
| "killAllCount (KillAll # es) = Suc (killAllCount es)"
| "killAllCount (_ # es) = killAllCount es"

text \<open>The flag covers every sequence in progress.\<close>

definition shutdown_inv :: "orchestrator \<Rightarrow> bool" where
  "shutdown_inv orc = (inProgress orc = 0 \<or> (inProgress orc = 1 \<and> isShuttingDown orc))"

subsection \<open>A concrete orchestrator\<close>

definition three_services :: "service list" where
  "three_services =
     [running_service,
      snd (service_start ready_env (new_service ''client'' None)),
      snd (service_start ready_env (new_service ''frontend'' (Some 5173)))]"

definition started_orchestrator :: orchestrator where
  "started_orchestrator = \<lparr> isShuttingDown = False, syncEngine = True,
     services = three_services, configWatcher = True,
     linkedPackages = [''@myorg/api-client''], inProgress = 0, effects = [] \<rparr>"

definition client_kill_fails :: stop_env where
  "client_kill_fails = \<lparr>
     killOutcomeAt = (\<lambda>i. if i = 1 then Some ''kill EPERM'' else None),
     killAllOutcome = None, closeOutcome = None \<rparr>"

definition all_killed :: stop_env where
  "all_killed = \<lparr> killOutcomeAt = (\<lambda>i. None), killAllOutcome = None, closeOutcome = None \<rparr>"

section \<open>The change detector (swagger-diff.js)\<close>

text \<open>
  The sync engine imports \<open>SwaggerChangeDetector\<close> from \<open>swagger-diff.js\<close>, which is not
  among the sources; the engine above takes its answers as a parameter. For what is
  said about the detector itself, this section states it as the specification does.
  Its input is the parsed document: white space between tokens no longer exists in it,
  what is left of white space is inside its strings; an object is the list of its
  entries in the order they were written.
\<close>

datatype json =
    JNull
  | JBool bool
  | JNum int
  | JStr string
  | JArr "json list"
  | JObj "(string \<times> json) list"

text \<open>
  Modelled from the spec: the normalization of \<open>swagger-diff.js\<close> is missing. It
  eliminates key ordering (the entries of every object are sorted by key),
  whitespace-only differences (two strings that differ only in white space have the same
  normal form: the string without its white space characters, which are the four of
  JSON: space, tab, line feed, carriage return) and the volatile metadata fields
  (entries whose key is volatile are dropped; which keys those are is a parameter).
\<close>

definition isWhitespace :: "char \<Rightarrow> bool" where
  "isWhitespace c = (c = CHR '' '' \<or> c = CHR 0x09 \<or> c = CHR 0x0A \<or> c = CHR 0x0D)"

text \<open>
  Modelled from the spec: the normal form of a string, in which whitespace-only
  differences are eliminated, is the string without its white space.
\<close>

definition stripWhitespace :: "string \<Rightarrow> string" where
  "stripWhitespace s = filter (\<lambda>c. \<not> isWhitespace c) s"

text \<open>
  Modelled from the spec: the normalization proper, over the whole document.
\<close>

fun normalizeSpec :: "(string \<Rightarrow> bool) \<Rightarrow> json \<Rightarrow> json" where
  "normalizeSpec volatile (JObj kvs) =
     JObj (sort_key fst (map (\<lambda>(k, v). (k, normalizeSpec volatile v))
                           (filter (\<lambda>(k, v). \<not> volatile k) kvs)))"
| "normalizeSpec volatile (JArr xs) = JArr (map (normalizeSpec volatile) xs)"
| "normalizeSpec volatile (JStr s) = JStr (stripWhitespace s)"
| "normalizeSpec volatile j = j"

text \<open>
  Modelled from the spec: the signature of \<open>swagger-diff.js\<close> is missing. It is a
  stable hash of the normalized document; the hash function is a parameter.
\<close>

definition signature :: "(json \<Rightarrow> string) \<Rightarrow> (string \<Rightarrow> bool) \<Rightarrow> json \<Rightarrow> string" where
  "signature hash volatile doc = hash (normalizeSpec volatile doc)"

record detector =
  lastSignature :: "string option"

text \<open>
  Modelled from the spec: \<open>SwaggerChangeDetector.hasSignificantChanges\<close> is missing. It
  compares the signature of the new document with the stored one; with no stored
  signature, or a different one, the document is changed and its signature is recorded.
\<close>

definition detector_hasSignificantChanges ::
  "(json \<Rightarrow> string) \<Rightarrow> (string \<Rightarrow> bool) \<Rightarrow> json \<Rightarrow> detector \<Rightarrow> bool \<times> detector" where
  "detector_hasSignificantChanges hash volatile newSpec det =
     (let sig = signature hash volatile newSpec in
      if lastSignature det = Some sig then (False, det)
      else (True, det\<lparr> lastSignature := Some sig \<rparr>))"

text \<open>
  Modelled from the spec: \<open>SwaggerChangeDetector.getCurrentHash\<close> is missing. It returns
  the recorded signature, or null.
\<close>

definition detector_getCurrentHash :: "detector \<Rightarrow> string option" where
  "detector_getCurrentHash det = lastSignature det"

text \<open>
  Two strings that differ only in white space: the one is obtained from the other by
  inserting and deleting white space characters.
\<close>

inductive whitespaceOnly :: "string \<Rightarrow> string \<Rightarrow> bool" where
  empty: "whitespaceOnly [] []"
| both: "whitespaceOnly a b \<Longrightarrow> whitespaceOnly (c # a) (c # b)"
| left: "isWhitespace c \<Longrightarrow> whitespaceOnly a b \<Longrightarrow> whitespaceOnly (c # a) b"
| right: "isWhitespace c \<Longrightarrow> whitespaceOnly a b \<Longrightarrow> whitespaceOnly a (c # b)"

text \<open>
  Two documents that are structurally identical and differ only in the order of the
  keys of their objects (keys within one object being distinct) or in the white space of
  their strings.
\<close>

inductive orderOrWhitespace :: "json \<Rightarrow> json \<Rightarrow> bool" where
  same: "orderOrWhitespace j j"
| strings: "whitespaceOnly a b \<Longrightarrow> orderOrWhitespace (JStr a) (JStr b)"
| arrays: "list_all2 orderOrWhitespace xs ys \<Longrightarrow> orderOrWhitespace (JArr xs) (JArr ys)"
| objects: "list_all2 (\<lambda>a b. fst a = fst b \<and> orderOrWhitespace (snd a) (snd b)) kvs kvs' \<Longrightarrow>
     mset kvs' = mset kvs'' \<Longrightarrow> distinct (map fst kvs) \<Longrightarrow>
     orderOrWhitespace (JObj kvs) (JObj kvs'')"

subsection \<open>Two concrete documents\<close>

definition petstore :: json where
  "petstore = JObj [(''openapi'', JStr ''3.0.0''), (''title'', JStr ''Pet Store''),
     (''paths'', JObj [(''/users'', JObj [(''get'', JNull)]), (''/pets'', JNull)])]"

definition petstore_reformatted :: json where
  "petstore_reformatted = JObj [
     (''paths'', JObj [(''/pets'', JNull), (''/users'', JObj [(''get'', JNull)])]),
     (''title'', JStr ''Pet  Store ''),
     (''openapi'', JStr ''3.0.0'')]"

definition keyNames :: "json \<Rightarrow> string" where
  "keyNames doc = (case doc of JObj kvs \<Rightarrow> concat (map fst kvs) | _ \<Rightarrow> [])"

section \<open>Properties of the sync engine\<close>

lemma scheduledDelays_append [simp]:
  "scheduledDelays (xs @ ys) = scheduledDelays xs @ scheduledDelays ys"
  by (induction xs rule: scheduledDelays.induct) simp_all

lemma startedCount_append [simp]:
  "startedCount (xs @ ys) = startedCount xs + startedCount ys"
  by (induction xs rule: startedCount.induct) simp_all

lemma check_frame:
  "checkForMeaningfulChanges cfg env s = (r, s1) \<Longrightarrow>
   syncLock s1 = syncLock s \<and> syncRetries s1 = syncRetries s \<and> timers s1 = timers s \<and>
   inFlight s1 = inFlight s \<and> scheduledDelays (trace s1) = scheduledDelays (trace s) \<and>
   startedCount (trace s1) = startedCount (trace s) \<and> lastSyncTime s1 = lastSyncTime s"
  by (auto simp: checkForMeaningfulChanges_def warn_def Let_def
      split: if_splits fetch_outcome.splits sum.splits)

lemma invoke_frame:
  "invoke name out s = (r, s1) \<Longrightarrow>
   syncLock s1 = syncLock s \<and> syncRetries s1 = syncRetries s \<and> timers s1 = timers s \<and>
   inFlight s1 = inFlight s \<and> scheduledDelays (trace s1) = scheduledDelays (trace s) \<and>
   startedCount (trace s1) = startedCount (trace s) \<and> lastSyncTime s1 = lastSyncTime s"
  by (auto simp: invoke_def split: option.splits)

lemma syncSteps_frame:
  assumes "syncSteps cfg env s = (r, s1)"
  shows "syncLock s1 = syncLock s \<and> timers s1 = timers s \<and> inFlight s1 = inFlight s \<and>
         scheduledDelays (trace s1) = scheduledDelays (trace s) \<and>
         startedCount (trace s1) = startedCount (trace s) \<and>
         (isl r \<longrightarrow> syncRetries s1 = syncRetries s) \<and>
         (\<not> isl r \<longrightarrow> syncRetries s1 = syncRetries s \<or> syncRetries s1 = 0)"
  using assms
  apply (simp add: syncSteps_def andThen_def skip_def emit_def split: prod.splits sum.splits if_splits)
  apply (auto dest!: check_frame invoke_frame)
  done

lemma settle_failing:
  assumes fails: "\<forall>s. isl (fst (syncSteps cfg env s))" and run: "0 < inFlight s"
  shows "syncLock (step cfg s (Settle env)) = False"
    and "inFlight (step cfg s (Settle env)) = inFlight s - 1"
    and "startedCount (trace (step cfg s (Settle env))) = startedCount (trace s)"
    and "syncRetries s < MAX_SYNC_RETRIES \<Longrightarrow>
           syncRetries (step cfg s (Settle env)) = syncRetries s + 1 \<and>
           timers (step cfg s (Settle env)) = timers s @ [2 ^ (syncRetries s + 1) * 1000] \<and>
           scheduledDelays (trace (step cfg s (Settle env))) =
             scheduledDelays (trace s) @ [2 ^ (syncRetries s + 1) * 1000]"
    and "\<not> syncRetries s < MAX_SYNC_RETRIES \<Longrightarrow>
           syncRetries (step cfg s (Settle env)) = 0 \<and>
           timers (step cfg s (Settle env)) = timers s \<and>
           scheduledDelays (trace (step cfg s (Settle env))) = scheduledDelays (trace s)"
proof -
  obtain r s1 where body: "syncSteps cfg env s = (r, s1)"
    by (cases "syncSteps cfg env s")
  with fails have "isl r"
    by (metis fst_conv)
  then obtain e where r: "r = Inl e"
    by (cases r) simp_all
  note fr = syncSteps_frame [OF body]
  have st: "step cfg s (Settle env) = releaseLock (snd (onSyncError e s1))"
    using run body r
    by (simp add: performSync_resume_def tryCatchFinally_def split: prod.splits)
  show "syncLock (step cfg s (Settle env)) = False"
    unfolding st by (simp add: releaseLock_def)
  show "inFlight (step cfg s (Settle env)) = inFlight s - 1"
    unfolding st using fr by (simp add: releaseLock_def onSyncError_def emit_def Let_def)
  show "startedCount (trace (step cfg s (Settle env))) = startedCount (trace s)"
    unfolding st using fr by (simp add: releaseLock_def onSyncError_def emit_def Let_def)
  show "syncRetries s < MAX_SYNC_RETRIES \<Longrightarrow>
           syncRetries (step cfg s (Settle env)) = syncRetries s + 1 \<and>
           timers (step cfg s (Settle env)) = timers s @ [2 ^ (syncRetries s + 1) * 1000] \<and>
           scheduledDelays (trace (step cfg s (Settle env))) =
             scheduledDelays (trace s) @ [2 ^ (syncRetries s + 1) * 1000]"
    unfolding st using fr r by (simp add: releaseLock_def onSyncError_def emit_def Let_def)
  show "\<not> syncRetries s < MAX_SYNC_RETRIES \<Longrightarrow>
           syncRetries (step cfg s (Settle env)) = 0 \<and>
           timers (step cfg s (Settle env)) = timers s \<and>
           scheduledDelays (trace (step cfg s (Settle env))) = scheduledDelays (trace s)"
    unfolding st using fr r by (simp add: releaseLock_def onSyncError_def emit_def Let_def)
qed

lemma retry_fires:
  assumes "timers s = d # ds"
  shows "syncLock (step cfg s RetryTimer) = True"
    and "inFlight (step cfg s RetryTimer) = inFlight s + 1"
    and "timers (step cfg s RetryTimer) = ds"
    and "syncRetries (step cfg s RetryTimer) = syncRetries s"
    and "scheduledDelays (trace (step cfg s RetryTimer)) = scheduledDelays (trace s)"
    and "startedCount (trace (step cfg s RetryTimer)) = startedCount (trace s) + 1"
  using assms by (simp_all add: retryCallback_def performSync_enter_def emit_def)

lemma step_retries_bounded:
  "syncRetries s \<le> MAX_SYNC_RETRIES \<Longrightarrow> syncRetries (step cfg s ev) \<le> MAX_SYNC_RETRIES"
proof (cases ev)
  case Trigger
  then show "syncRetries s \<le> MAX_SYNC_RETRIES \<Longrightarrow> ?thesis"
    by (simp add: performSync_enter_def emit_def)
next
  case RetryTimer
  then show "syncRetries s \<le> MAX_SYNC_RETRIES \<Longrightarrow> ?thesis"
    by (simp add: retryCallback_def performSync_enter_def emit_def split: list.splits)
next
  case (Settle env)
  assume le: "syncRetries s \<le> MAX_SYNC_RETRIES"
  obtain r s1 where body: "syncSteps cfg env s = (r, s1)"
    by (cases "syncSteps cfg env s")
  from syncSteps_frame [OF body] le have "syncRetries s1 \<le> MAX_SYNC_RETRIES"
    by (cases "isl r") auto
  then show ?thesis
    using Settle body le
    by (auto simp: performSync_resume_def tryCatchFinally_def releaseLock_def onSyncError_def
        emit_def Let_def split: sum.splits)
qed

lemma run_retries_bounded:
  "syncRetries s \<le> MAX_SYNC_RETRIES \<Longrightarrow> syncRetries (run cfg evs s) \<le> MAX_SYNC_RETRIES"
  unfolding run_def
  by (induction evs arbitrary: s) (simp_all add: step_retries_bounded)

lemma unreachable_always_fails: "isl (fst (syncSteps cfg unreachable_env s))"
  by (simp add: syncSteps_def andThen_def checkForMeaningfulChanges_def unreachable_env_def
      invoke_def skip_def Let_def split: prod.splits)

text \<open>
  Claim C2. Let the sync procedure fail in every execution. Then \<open>MAX_SYNC_RETRIES\<close> is 3
  and the retry counter never exceeds it, whatever the events; and the engine, started
  by one trigger and left to its retry timers, comes to rest after four executions (the
  first and exactly three retries): the delays handed to \<open>setTimeout\<close> are 2000, 4000
  and 8000 ms, that is \<open>2 ^ n * 1000\<close> for the retry counts 1, 2, 3, each twice the one
  before; after the fourth failure no timer is pending and the counter is back to 0.
\<close>

theorem retry_backoff_bounded:
  fixes env :: "'doc sync_env" and evs :: "'doc loop_event list"
  assumes fails: "\<forall>s. isl (fst (syncSteps cfg env s))"
  shows "MAX_SYNC_RETRIES = 3 \<and>
         syncRetries (run cfg evs new_engine) \<le> MAX_SYNC_RETRIES \<and>
         (\<exists>s'. (\<forall>k. retryLoop (4 + k) cfg env
                        (step cfg new_engine (Trigger :: 'doc loop_event)) = Some s') \<and>
               scheduledDelays (trace s') = [2000, 4000, 8000] \<and>
               startedCount (trace s') = 4 \<and>
               syncRetries s' = 0 \<and> timers s' = [] \<and> \<not> syncLock s')"
proof -
  define T :: "'doc loop_event" where "T = RetryTimer"
  define s0 where "s0 = step cfg new_engine (Trigger :: 'doc loop_event)"
  define s1 where "s1 = step cfg s0 (Settle env)"
  define s2 where "s2 = step cfg s1 T"
  define s3 where "s3 = step cfg s2 (Settle env)"
  define s4 where "s4 = step cfg s3 T"
  define s5 where "s5 = step cfg s4 (Settle env)"
  define s6 where "s6 = step cfg s5 T"
  define s7 where "s7 = step cfg s6 (Settle env)"
  have p0: "inFlight s0 = 1" "syncRetries s0 = 0" "timers s0 = []"
    "scheduledDelays (trace s0) = []" "startedCount (trace s0) = 1"
    by (simp_all add: s0_def new_engine_def performSync_enter_def emit_def)
  have p1: "inFlight s1 = 0" "syncRetries s1 = 1" "timers s1 = [2000]"
    "scheduledDelays (trace s1) = [2000]" "startedCount (trace s1) = 1"
    using settle_failing [OF fails, of s0] p0 by (simp_all add: s1_def MAX_SYNC_RETRIES_def)
  have p2: "inFlight s2 = 1" "syncRetries s2 = 1" "timers s2 = []"
    "scheduledDelays (trace s2) = [2000]" "startedCount (trace s2) = 2"
    using retry_fires [of s1 2000 "[]" cfg] p1 by (simp_all add: s2_def T_def)
  have p3: "inFlight s3 = 0" "syncRetries s3 = 2" "timers s3 = [4000]"
    "scheduledDelays (trace s3) = [2000, 4000]" "startedCount (trace s3) = 2"
    using settle_failing [OF fails, of s2] p2 by (simp_all add: s3_def MAX_SYNC_RETRIES_def)
  have p4: "inFlight s4 = 1" "syncRetries s4 = 2" "timers s4 = []"
    "scheduledDelays (trace s4) = [2000, 4000]" "startedCount (trace s4) = 3"
    using retry_fires [of s3 4000 "[]" cfg] p3 by (simp_all add: s4_def T_def)
  have p5: "inFlight s5 = 0" "syncRetries s5 = 3" "timers s5 = [8000]"
    "scheduledDelays (trace s5) = [2000, 4000, 8000]" "startedCount (trace s5) = 3"
    using settle_failing [OF fails, of s4] p4 by (simp_all add: s5_def MAX_SYNC_RETRIES_def)
  have p6: "inFlight s6 = 1" "syncRetries s6 = 3" "timers s6 = []"
    "scheduledDelays (trace s6) = [2000, 4000, 8000]" "startedCount (trace s6) = 4"
    using retry_fires [of s5 8000 "[]" cfg] p5 by (simp_all add: s6_def T_def)
  have p7: "syncLock s7 = False" "syncRetries s7 = 0" "timers s7 = []"
    "scheduledDelays (trace s7) = [2000, 4000, 8000]" "startedCount (trace s7) = 4"
    using settle_failing [OF fails, of s6] p6 by (simp_all add: s7_def MAX_SYNC_RETRIES_def)
  have loop: "retryLoop (4 + k) cfg env s0 = Some s7" for k
  proof -
    have fuel: "4 + k = Suc (Suc (Suc (Suc k)))" by simp
    show ?thesis
      unfolding fuel using p1 p3 p5 p7
      by (simp add: Let_def s1_def [symmetric] s2_def [symmetric] s3_def [symmetric]
          s4_def [symmetric] s5_def [symmetric] s6_def [symmetric] s7_def [symmetric]
          T_def [symmetric] del: step.simps)
  qed
  have bound: "syncRetries (run cfg evs new_engine) \<le> MAX_SYNC_RETRIES"
    by (rule run_retries_bounded) (simp add: new_engine_def)
  show ?thesis
    using loop p7 bound unfolding s0_def by (auto simp: MAX_SYNC_RETRIES_def)
qed

text \<open>
  The always-failing engine of a runtime spec whose backend is never reachable.
\<close>

theorem retry_backoff_bounded_witness:
  "isl (fst (syncSteps runtime_cfg unreachable_env new_engine)) \<and>
   retryLoop 4 runtime_cfg unreachable_env (step runtime_cfg new_engine (Trigger :: unit loop_event)) \<noteq> None \<and>
   scheduledDelays (trace (the (retryLoop 4 runtime_cfg unreachable_env
      (step runtime_cfg new_engine (Trigger :: unit loop_event))))) = [2000, 4000, 8000] \<and>
   syncRetries (the (retryLoop 4 runtime_cfg unreachable_env
      (step runtime_cfg new_engine (Trigger :: unit loop_event)))) = 0 \<and>
   syncRetries (run runtime_cfg [Trigger, Settle unreachable_env, RetryTimer] new_engine) \<le> 3"
proof -
  have fails: "\<forall>s. isl (fst (syncSteps runtime_cfg unreachable_env s))"
    by (simp add: unreachable_always_fails)
  from retry_backoff_bounded [OF fails, of "[Trigger, Settle unreachable_env, RetryTimer]"]
  obtain s' where
    loop: "\<forall>k. retryLoop (4 + k) runtime_cfg unreachable_env
             (step runtime_cfg new_engine (Trigger :: unit loop_event)) = Some s'"
    and obs: "scheduledDelays (trace s') = [2000, 4000, 8000]" "syncRetries s' = 0"
    and bound: "syncRetries (run runtime_cfg [Trigger, Settle unreachable_env, RetryTimer]
             new_engine) \<le> 3"
    by auto
  from loop have "retryLoop (4 + 0) runtime_cfg unreachable_env
             (step runtime_cfg new_engine (Trigger :: unit loop_event)) = Some s'"
    by blast
  then have "retryLoop 4 runtime_cfg unreachable_env
             (step runtime_cfg new_engine (Trigger :: unit loop_event)) = Some s'"
    by simp
  with obs bound fails show ?thesis
    by simp
qed

text \<open>
  What does hold of the lock: a trigger that finds it taken changes nothing, and as long
  as no retry timer fires, at most one execution is in flight.
\<close>

lemma trigger_dropped_while_locked: "syncLock s \<Longrightarrow> step cfg s Trigger = s"
  by (simp add: performSync_enter_def)

lemma lock_counts_without_retry:
  assumes "RetryTimer \<notin> set evs" and "inFlight s = (if syncLock s then 1 else 0)"
  shows "inFlight (run cfg evs s) = (if syncLock (run cfg evs s) then 1 else 0)"
  using assms unfolding run_def
proof (induction evs arbitrary: s)
  case Nil
  then show ?case by simp
next
  case (Cons ev evs)
  have "inFlight (step cfg s ev) = (if syncLock (step cfg s ev) then 1 else 0)"
  proof (cases ev)
    case Trigger
    with Cons.prems show ?thesis
      by (simp add: performSync_enter_def emit_def)
  next
    case RetryTimer
    with Cons.prems show ?thesis by simp
  next
    case (Settle env)
    obtain r s1 where body: "syncSteps cfg env s = (r, s1)"
      by (cases "syncSteps cfg env s")
    from syncSteps_frame [OF body] Cons.prems Settle body show ?thesis
      by (auto simp: performSync_resume_def tryCatchFinally_def releaseLock_def
          onSyncError_def emit_def Let_def split: sum.splits if_splits)
  qed
  with Cons show ?case by simp
qed

text \<open>
  Claim C1. The claim asks that no two executions of \<open>performSync\<close> are ever in
  progress together, retries included. The retry callback clears \<open>syncLock\<close> before it
  calls \<open>performSync\<close>: after a first failure, a second trigger takes the lock and is
  suspended (one execution in flight, the 2000 ms timer pending); when the timer fires,
  the lock is cleared under it and a second execution starts beside the first.
\<close>

theorem retry_timer_overrides_lock:
  "syncLock (run runtime_cfg [Trigger, Settle unreachable_env, Trigger] new_engine) \<and>
   inFlight (run runtime_cfg [Trigger, Settle unreachable_env, Trigger] new_engine) = 1 \<and>
   timers (run runtime_cfg [Trigger, Settle unreachable_env, Trigger] new_engine) = [2000] \<and>
   inFlight (run runtime_cfg [Trigger, Settle unreachable_env, Trigger, RetryTimer]
      new_engine) = 2"
  by (simp add: run_def new_engine_def performSync_enter_def performSync_resume_def
      tryCatchFinally_def syncSteps_def andThen_def checkForMeaningfulChanges_def
      runtime_cfg_def unreachable_env_def isRuntimeSpec_def warn_def invoke_def skip_def
      onSyncError_def emit_def releaseLock_def retryCallback_def MAX_SYNC_RETRIES_def Let_def)

lemma check_no_change_keeps_state:
  "checkForMeaningfulChanges cfg env s = (Inr False, s1) \<Longrightarrow> s1 = s"
  by (auto simp: checkForMeaningfulChanges_def Let_def
      split: if_splits fetch_outcome.splits sum.splits)

text \<open>
  Claim C3, as the code has it. Under strategy \<open>smart\<close>, when the change detector
  reports no significant change, \<open>performSync\<close> returns normally: the only effect is the
  \<open>generation-started\<close> event, so \<open>generateClient\<close> is not invoked, no
  \<open>generation-failed\<close> event is emitted, and no \<open>generation-completed\<close> event is
  emitted either; the lock is released, the retry counter and the timers are untouched.
\<close>

theorem smart_skip_silent_success:
  assumes "strategy cfg = Smart" and "\<not> syncLock s"
    and "fst (checkForMeaningfulChanges cfg env (snd (performSync_enter s))) = Inr False"
  shows "fst (performSync cfg env s) = Inr () \<and>
         trace (snd (performSync cfg env s)) = trace s @ [Emit GenerationStarted] \<and>
         \<not> syncLock (snd (performSync cfg env s)) \<and>
         syncRetries (snd (performSync cfg env s)) = syncRetries s \<and>
         timers (snd (performSync cfg env s)) = timers s"
proof -
  define s0 where "s0 = snd (performSync_enter s)"
  obtain s1 where chk: "checkForMeaningfulChanges cfg env s0 = (Inr False, s1)"
    using assms(3) unfolding s0_def by (metis prod.collapse)
  then have "s1 = s0"
    by (rule check_no_change_keeps_state)
  with chk assms(1) have "syncSteps cfg env s0 = (Inr (), s0)"
    by (simp add: syncSteps_def andThen_def skip_def)
  then have "performSync cfg env s = (Inr (), releaseLock s0)"
    using assms(2)
    by (simp add: performSync_def performSync_enter_def s0_def performSync_resume_def
        tryCatchFinally_def)
  then show ?thesis
    using assms(2) by (simp add: s0_def performSync_enter_def releaseLock_def emit_def)
qed

text \<open>
  A static spec that parses and is unchanged.
\<close>

theorem smart_skip_silent_success_witness:
  "strategy static_cfg = Smart \<and> \<not> syncLock new_engine \<and>
   fst (checkForMeaningfulChanges static_cfg unchanged_env
          (snd (performSync_enter new_engine))) = Inr False \<and>
   fst (performSync static_cfg unchanged_env new_engine) = Inr () \<and>
   trace (snd (performSync static_cfg unchanged_env new_engine)) = [Emit GenerationStarted]"
proof -
  have h1: "strategy static_cfg = Smart"
    by (simp add: static_cfg_def)
  have h2: "\<not> syncLock new_engine"
    by (simp add: new_engine_def)
  have h3: "fst (checkForMeaningfulChanges static_cfg unchanged_env
          (snd (performSync_enter new_engine))) = Inr False"
    by (simp add: checkForMeaningfulChanges_def static_cfg_def unchanged_env_def
        isRuntimeSpec_def Let_def)
  from smart_skip_silent_success [OF h1 h2 h3] h1 h2 h3 show ?thesis
    by (simp add: new_engine_def)
qed

text \<open>
  Claim C3 as stated fails: on the smart-strategy skip no \<open>generation-completed\<close> event
  fires.
\<close>

theorem smart_skip_completed_counterexample:
  "strategy static_cfg = Smart \<and>
   fst (checkForMeaningfulChanges static_cfg unchanged_env
          (snd (performSync_enter new_engine))) = Inr False \<and>
   Emit GenerationCompleted \<notin> set (trace (snd (performSync static_cfg unchanged_env new_engine)))"
  by (simp add: performSync_def performSync_enter_def performSync_resume_def
      tryCatchFinally_def syncSteps_def andThen_def checkForMeaningfulChanges_def
      static_cfg_def unchanged_env_def isRuntimeSpec_def skip_def new_engine_def
      emit_def releaseLock_def Let_def)

lemma tryCatchFinally_onSyncError:
  "fst (tryCatchFinally body onSyncError fin s) = Inr ()"
  by (auto simp: tryCatchFinally_def onSyncError_def Let_def split: prod.splits sum.splits)

lemma performSync_resolves: "fst (performSync cfg env s) = Inr ()"
  by (simp add: performSync_def performSync_enter_def performSync_resume_def
      tryCatchFinally_onSyncError)

lemma performSync_result: "performSync cfg env s = (r, s') \<Longrightarrow> r = Inr ()"
  using performSync_resolves [of cfg env s] by simp

lemma trace_releaseLock: "trace (releaseLock s) = trace s"
  by (simp add: releaseLock_def)

lemma failed_in_onSyncError:
  "Emit (GenerationFailed e) \<in> set (trace (snd (onSyncError e s)))"
  by (simp add: onSyncError_def emit_def Let_def)

lemma performSync_resume_failed:
  "syncSteps cfg env s = (Inl e, s1) \<Longrightarrow>
   Emit (GenerationFailed e) \<in> set (trace (snd (performSync_resume cfg env s)))"
  using failed_in_onSyncError [of e s1]
  by (auto simp: performSync_resume_def tryCatchFinally_def trace_releaseLock split: prod.splits)

lemma start_resolves:
  "w = None \<or> isRuntimeSpec (apiSpecPath cfg) \<Longrightarrow> fst (start cfg w env s) = Inr ()"
  by (auto simp: start_def andThen_def skip_def dest: performSync_result
      split: if_splits option.splits prod.splits sum.splits)

text \<open>
  Claim C6. \<open>performSync\<close> never rejects: whatever fails inside the procedure (the spec
  retrieval, the generation, the build, the link), the error is caught, a
  \<open>generation-failed\<close> event carrying it is emitted, and the call returns normally.
  Hence \<open>start\<close> throws only what the set-up of the file watcher throws: with polling,
  or with a watcher that starts, it returns normally even when the initial sync fails.
\<close>

theorem sync_failure_caught:
  "fst (performSync cfg env s) = Inr () \<and>
   (\<forall>e s1. \<not> syncLock s \<longrightarrow> syncSteps cfg env (snd (performSync_enter s)) = (Inl e, s1) \<longrightarrow>
      Emit (GenerationFailed e) \<in> set (trace (snd (performSync cfg env s)))) \<and>
   (w = None \<or> isRuntimeSpec (apiSpecPath cfg) \<longrightarrow> fst (start cfg w env s) = Inr ())"
  using performSync_resolves [of cfg env s] start_resolves [of w cfg env s]
  by (auto simp: performSync_def performSync_enter_def dest: performSync_resume_failed)

text \<open>
  A static spec whose generator command fails.
\<close>

theorem sync_failure_caught_witness:
  "\<not> syncLock new_engine \<and>
   fst (syncSteps static_cfg generator_fails_env (snd (performSync_enter new_engine))) =
     Inl (Error ''Command failed: npx @hey-api/openapi-ts'') \<and>
   fst (performSync static_cfg generator_fails_env new_engine) = Inr () \<and>
   Emit (GenerationFailed (Error ''Command failed: npx @hey-api/openapi-ts''))
     \<in> set (trace (snd (performSync static_cfg generator_fails_env new_engine))) \<and>
   fst (start static_cfg None generator_fails_env new_engine) = Inr ()"
proof -
  have h1: "\<not> syncLock new_engine"
    by (simp add: new_engine_def)
  obtain s1 where h2: "syncSteps static_cfg generator_fails_env (snd (performSync_enter new_engine))
      = (Inl (Error ''Command failed: npx @hey-api/openapi-ts''), s1)"
    by (simp add: syncSteps_def andThen_def checkForMeaningfulChanges_def static_cfg_def
        generator_fails_env_def isRuntimeSpec_def invoke_def Let_def)
  from sync_failure_caught [of static_cfg generator_fails_env new_engine None] h1 h2
  show ?thesis
    by simp
qed



section \<open>Properties of freePort\<close>

declare freePortLoop.simps [simp del]

lemma waits_append [simp]: "waits (xs @ ys) = waits xs @ waits ys"
  by (induction xs rule: waits.induct) simp_all

lemma waits_kills [simp]: "waits (map (Kill a m) ps) = []"
  by (induction ps) simp_all

lemma killsIn_append [simp]: "killsIn a (xs @ ys) = killsIn a xs @ killsIn a ys"
  by (induction a xs rule: killsIn.induct) simp_all

lemma killsIn_kills [simp]:
  "killsIn a (map (Kill a' m) ps) = (if a' = a then map (Pair m) ps else [])"
  by (induction ps) auto

lemma loop_exit:
  "\<not> attempt < maxAttempts \<Longrightarrow> freePortLoop env attempt delay portFreed pids tr = (False, tr)"
  by (subst freePortLoop.simps) simp

lemma loop_freed:
  "attempt < maxAttempts \<Longrightarrow> \<not> inUseAt env (Suc attempt) \<Longrightarrow>
   freePortLoop env attempt delay False pids tr =
     (True, tr @ map (Kill (Suc attempt) (killMethod (Suc attempt))) pids
              @ [Wait delay, IsPortInUse])"
  by (subst freePortLoop.simps) (simp add: Let_def)

lemma loop_continue:
  "attempt < maxAttempts \<Longrightarrow> inUseAt env (Suc attempt) \<Longrightarrow>
   freePortLoop env attempt delay False pids tr =
     freePortLoop env (Suc attempt) (min (delay * backoffMultiplier) maxDelay) False
       (nextPids env (Suc attempt) pids)
       (tr @ map (Kill (Suc attempt) (killMethod (Suc attempt))) pids
           @ [Wait delay, IsPortInUse, GetProcessesUsingPort])"
  by (subst freePortLoop.simps) (simp add: Let_def nextPids_def)

lemma loop_waits:
  "maxAttempts - attempt = n \<Longrightarrow>
   \<exists>ws. waits (snd (freePortLoop env attempt delay False pids tr)) = waits tr @ ws \<and>
        prefix ws (backoff delay n)"
proof (induction n arbitrary: attempt delay pids tr)
  case 0
  then show ?case by (simp add: loop_exit)
next
  case (Suc n)
  then have lt: "attempt < maxAttempts" and n: "maxAttempts - Suc attempt = n"
    by simp_all
  show ?case
  proof (cases "inUseAt env (Suc attempt)")
    case False
    with lt show ?thesis by (simp add: loop_freed)
  next
    case True
    from Suc.IH [OF n] obtain ws where
      "waits (snd (freePortLoop env (Suc attempt) (min (delay * backoffMultiplier) maxDelay)
          False (nextPids env (Suc attempt) pids)
          (tr @ map (Kill (Suc attempt) (killMethod (Suc attempt))) pids
             @ [Wait delay, IsPortInUse, GetProcessesUsingPort])))
       = waits (tr @ map (Kill (Suc attempt) (killMethod (Suc attempt))) pids
             @ [Wait delay, IsPortInUse, GetProcessesUsingPort]) @ ws"
      and "prefix ws (backoff (min (delay * backoffMultiplier) maxDelay) n)"
      by blast
    with lt True show ?thesis
      by (simp add: loop_continue)
  qed
qed

lemma loop_kills:
  "maxAttempts - attempt = n \<Longrightarrow>
   (m, p) \<in> set (killsIn a (snd (freePortLoop env attempt delay False pids tr))) \<Longrightarrow>
   (m, p) \<in> set (killsIn a tr) \<or> (attempt < a \<and> a \<le> maxAttempts \<and> m = killMethod a)"
proof (induction n arbitrary: attempt delay pids tr)
  case 0
  then show ?case by (simp add: loop_exit)
next
  case (Suc n)
  then have lt: "attempt < maxAttempts" and n: "maxAttempts - Suc attempt = n"
    by simp_all
  show ?case
  proof (cases "inUseAt env (Suc attempt)")
    case False
    with lt Suc.prems(2) show ?thesis
      by (auto simp: loop_freed split: if_splits)
  next
    case True
    with lt Suc.prems(2) Suc.IH [OF n] show ?thesis
      by (fastforce simp: loop_continue split: if_splits)
  qed
qed

lemma loop_tip:
  "maxAttempts - attempt = n \<Longrightarrow>
   ElevatedTip \<in> set (snd (freePortLoop env attempt delay False pids tr))
     \<longleftrightarrow> ElevatedTip \<in> set tr"
proof (induction n arbitrary: attempt delay pids tr)
  case 0
  then show ?case by (simp add: loop_exit)
next
  case (Suc n)
  then have lt: "attempt < maxAttempts" and n: "maxAttempts - Suc attempt = n"
    by simp_all
  show ?case
  proof (cases "inUseAt env (Suc attempt)")
    case False
    with lt show ?thesis
      by (auto simp: loop_freed)
  next
    case True
    with lt Suc.IH [OF n] show ?thesis
      by (auto simp: loop_continue)
  qed
qed

lemma rechecked_wait_owners [simp]:
  "\<not> recheckedAfterWait (Wait d # GetProcessesUsingPort # ys)"
  by (cases ys) simp_all

lemma rechecked_split:
  "recheckedAfterWait (xs @ [GetProcessesUsingPort]) \<Longrightarrow> recheckedAfterWait ys \<Longrightarrow>
   recheckedAfterWait (xs @ GetProcessesUsingPort # ys)"
  by (induction xs rule: recheckedAfterWait.induct) auto

lemma rechecked_kills [simp]:
  "recheckedAfterWait (map (Kill a m) ps @ es) = recheckedAfterWait es"
  by (induction ps) simp_all

lemma loop_rechecked:
  "maxAttempts - attempt = n \<Longrightarrow> recheckedAfterWait (tr @ [GetProcessesUsingPort]) \<Longrightarrow>
   (\<exists>tr'. snd (freePortLoop env attempt delay False pids (tr @ [GetProcessesUsingPort]))
             = tr' @ [GetProcessesUsingPort] \<and> recheckedAfterWait (tr' @ [GetProcessesUsingPort]))
   \<or> (fst (freePortLoop env attempt delay False pids (tr @ [GetProcessesUsingPort])) \<and>
      recheckedAfterWait (snd (freePortLoop env attempt delay False pids
         (tr @ [GetProcessesUsingPort]))))"
proof (induction n arbitrary: attempt delay pids tr)
  case 0
  then show ?case by (simp add: loop_exit)
next
  case (Suc n)
  then have lt: "attempt < maxAttempts" and n: "maxAttempts - Suc attempt = n"
    by simp_all
  show ?case
  proof (cases "inUseAt env (Suc attempt)")
    case False
    have "recheckedAfterWait (tr @ GetProcessesUsingPort #
       map (Kill (Suc attempt) (killMethod (Suc attempt))) pids @ [Wait delay, IsPortInUse])"
      using Suc.prems(2) by (rule rechecked_split) simp
    with lt False show ?thesis
      by (simp add: loop_freed)
  next
    case True
    let ?tr = "tr @ GetProcessesUsingPort #
       map (Kill (Suc attempt) (killMethod (Suc attempt))) pids @ [Wait delay, IsPortInUse]"
    have "recheckedAfterWait (tr @ GetProcessesUsingPort #
       map (Kill (Suc attempt) (killMethod (Suc attempt))) pids
         @ [Wait delay, IsPortInUse, GetProcessesUsingPort])"
      using Suc.prems(2) by (rule rechecked_split) simp
    then have "recheckedAfterWait (?tr @ [GetProcessesUsingPort])"
      by simp
    from Suc.IH [OF n this, of "min (delay * backoffMultiplier) maxDelay"
        "nextPids env (Suc attempt) pids"] lt True
    show ?thesis
      by (simp add: loop_continue)
  qed
qed

lemma loop_kills_before:
  "maxAttempts - attempt = n \<Longrightarrow> a \<le> attempt \<Longrightarrow>
   killsIn a (snd (freePortLoop env attempt delay False pids tr)) = killsIn a tr"
proof (induction n arbitrary: attempt delay pids tr)
  case 0
  then show ?case by (simp add: loop_exit)
next
  case (Suc n)
  then have lt: "attempt < maxAttempts" and n: "maxAttempts - Suc attempt = n"
    and a: "a \<le> Suc attempt" "a \<noteq> Suc attempt"
    by simp_all
  show ?case
  proof (cases "inUseAt env (Suc attempt)")
    case False
    with lt a show ?thesis
      by (simp add: loop_freed)
  next
    case True
    with lt a Suc.IH [OF n a(1)] show ?thesis
      by (simp add: loop_continue)
  qed
qed

lemma loop_busy:
  assumes busy: "\<forall>k \<le> maxAttempts. inUseAt env k"
  shows "maxAttempts - attempt = n \<Longrightarrow> attempt \<le> maxAttempts \<Longrightarrow>
    \<not> fst (freePortLoop env attempt delay False (ownersHeld env attempt) tr) \<and>
    waits (snd (freePortLoop env attempt delay False (ownersHeld env attempt) tr))
      = waits tr @ backoff delay n \<and>
    (\<forall>a. attempt < a \<and> a \<le> maxAttempts \<longrightarrow>
       killsIn a (snd (freePortLoop env attempt delay False (ownersHeld env attempt) tr))
         = killsIn a tr @ map (Pair (killMethod a)) (ownersHeld env (a - 1)))"
proof (induction n arbitrary: attempt delay tr)
  case 0
  then show ?case by (auto simp: loop_exit)
next
  case (Suc n)
  then have lt: "attempt < maxAttempts" and n: "maxAttempts - Suc attempt = n"
    and le: "Suc attempt \<le> maxAttempts"
    by simp_all
  from busy le have True: "inUseAt env (Suc attempt)"
    by blast
  have step: "freePortLoop env attempt delay False (ownersHeld env attempt) tr =
     freePortLoop env (Suc attempt) (min (delay * backoffMultiplier) maxDelay) False
       (ownersHeld env (Suc attempt))
       (tr @ map (Kill (Suc attempt) (killMethod (Suc attempt))) (ownersHeld env attempt)
           @ [Wait delay, IsPortInUse, GetProcessesUsingPort])"
    using lt True by (simp add: loop_continue)
  note ih = Suc.IH [OF n le, of "min (delay * backoffMultiplier) maxDelay"
       "tr @ map (Kill (Suc attempt) (killMethod (Suc attempt))) (ownersHeld env attempt)
           @ [Wait delay, IsPortInUse, GetProcessesUsingPort]"]
  show ?case
  proof (intro conjI allI impI)
    show "\<not> fst (freePortLoop env attempt delay False (ownersHeld env attempt) tr)"
      unfolding step using ih by blast
    show "waits (snd (freePortLoop env attempt delay False (ownersHeld env attempt) tr))
      = waits tr @ backoff delay (Suc n)"
      unfolding step using ih by simp
  next
    fix a assume a: "attempt < a \<and> a \<le> maxAttempts"
    show "killsIn a (snd (freePortLoop env attempt delay False (ownersHeld env attempt) tr))
         = killsIn a tr @ map (Pair (killMethod a)) (ownersHeld env (a - 1))"
    proof (cases "a = Suc attempt")
      case True
      have "killsIn a (snd (freePortLoop env attempt delay False (ownersHeld env attempt) tr))
          = killsIn a (tr @ map (Kill (Suc attempt) (killMethod (Suc attempt)))
                (ownersHeld env attempt) @ [Wait delay, IsPortInUse, GetProcessesUsingPort])"
        unfolding step
        using loop_kills_before [OF n, of a] True by simp
      then show ?thesis using True by simp
    next
      case False
      with a have "Suc attempt < a \<and> a \<le> maxAttempts" by simp
      with ih show ?thesis
        unfolding step by simp
    qed
  qed
qed

lemma backoff_full: "backoff initialDelay maxAttempts = [500, 1000, 2000, 4000, 5000]"
  by (simp add: initialDelay_def maxAttempts_def backoffMultiplier_def maxDelay_def
      eval_nat_numeral)

text \<open>
  Claim C5. Whatever the operating system answers, \<open>freePort\<close> returns, and its trace
  obeys the backoff: the waits are a prefix of 500, 1000, 2000, 4000, 5000 ms (so at
  most five attempts); a process signalled in attempt \<open>a\<close> has \<open>1 \<le> a \<le> 5\<close> and is
  sent the graceful signal in attempt 1, SIGKILL in attempt 2 and the forced kill of the
  system commands from attempt 3 on; every wait is followed by a check of the port, and
  every such check that found the port busy by a new resolution of its owners. When the
  port stays in use through the fifth check, the result is the error after exactly five
  attempts with all five waits, attempt \<open>a\<close> having signalled the owners as re-resolved
  after attempt \<open>a - 1\<close>, and the tip about elevated privileges is printed exactly when
  the process is not elevated.
\<close>

theorem freePort_bounded_backoff:
  "prefix (waits (snd (freePort env port))) [500, 1000, 2000, 4000, 5000] \<and>
   (\<forall>a m p. (m, p) \<in> set (killsIn a (snd (freePort env port))) \<longrightarrow>
      1 \<le> a \<and> a \<le> 5 \<and>
      m = (if a = 1 then Graceful else if a = 2 then Sigkill else ForceKill)) \<and>
   recheckedAfterWait (snd (freePort env port)) \<and>
   ((\<forall>k \<le> 5. inUseAt env k) \<and> ownersAt env 0 \<noteq> [] \<longrightarrow>
      fst (freePort env port) = Inl (FreeFailed port 5) \<and>
      waits (snd (freePort env port)) = [500, 1000, 2000, 4000, 5000] \<and>
      (\<forall>a. 1 \<le> a \<and> a \<le> 5 \<longrightarrow>
         killsIn a (snd (freePort env port))
           = map (Pair (killMethod a)) (ownersHeld env (a - 1))) \<and>
      (ElevatedTip \<in> set (snd (freePort env port)) \<longleftrightarrow> \<not> elevated env))"
proof (cases "inUseAt env 0 \<and> ownersAt env 0 \<noteq> []")
  case False
  then have "snd (freePort env port) = [IsPortInUse] \<or>
        snd (freePort env port) = [IsPortInUse, GetProcessesUsingPort]"
    by (auto simp: freePort_def Let_def)
  with False show ?thesis
    by auto
next
  case True
  define pids where "pids = ownersAt env 0"
  define tr0 where "tr0 = [IsPortInUse, GetProcessesUsingPort]"
  define r where "r = freePortLoop env 0 initialDelay False pids tr0"
  define tail where "tail = HasElevatedPrivileges # (if elevated env then [] else [ElevatedTip])"
  have fp: "freePort env port =
      (if fst r then (Inr (), snd r) else (Inl (FreeFailed port maxAttempts), snd r @ tail))"
    using True
    by (simp add: freePort_def Let_def r_def pids_def tr0_def tail_def split: prod.splits)
  have tr: "snd (freePort env port) = (if fst r then snd r else snd r @ tail)"
    by (simp add: fp)
  have wt: "waits tail = []" and kt: "killsIn a tail = []" for a
    by (simp_all add: tail_def)
  have m0: "maxAttempts - 0 = maxAttempts"
    by simp
  have c1: "prefix (waits (snd (freePort env port))) [500, 1000, 2000, 4000, 5000]"
    using loop_waits [OF m0, of env initialDelay pids tr0]
    by (auto simp: tr wt r_def tr0_def backoff_full)
  have c2: "1 \<le> a \<and> a \<le> 5 \<and>
      m = (if a = 1 then Graceful else if a = 2 then Sigkill else ForceKill)"
    if "(m, p) \<in> set (killsIn a (snd (freePort env port)))" for a m p
  proof -
    from that have "(m, p) \<in> set (killsIn a (snd r))"
      by (simp add: tr kt split: if_splits)
    from loop_kills [OF m0 this [unfolded r_def]] show ?thesis
      by (auto simp: tr0_def maxAttempts_def killMethod_def)
  qed
  have c3: "recheckedAfterWait (snd (freePort env port))"
  proof -
    have start: "recheckedAfterWait ([IsPortInUse] @ [GetProcessesUsingPort])"
      by simp
    from loop_rechecked [OF m0 start, of env initialDelay pids]
    consider tr' where "snd r = tr' @ [GetProcessesUsingPort]"
        "recheckedAfterWait (tr' @ [GetProcessesUsingPort])"
      | "fst r" "recheckedAfterWait (snd r)"
      by (auto simp: r_def tr0_def)
    then show ?thesis
    proof cases
      case 1
      have "recheckedAfterWait tail"
        by (simp add: tail_def)
      with 1(2) have "recheckedAfterWait (tr' @ GetProcessesUsingPort # tail)"
        by (rule rechecked_split)
      with 1 show ?thesis
        by (simp add: tr)
    next
      case 2
      then show ?thesis by (simp add: tr)
    qed
  qed
  have c4: "fst (freePort env port) = Inl (FreeFailed port 5) \<and>
      waits (snd (freePort env port)) = [500, 1000, 2000, 4000, 5000] \<and>
      (\<forall>a. 1 \<le> a \<and> a \<le> 5 \<longrightarrow>
         killsIn a (snd (freePort env port))
           = map (Pair (killMethod a)) (ownersHeld env (a - 1))) \<and>
      (ElevatedTip \<in> set (snd (freePort env port)) \<longleftrightarrow> \<not> elevated env)"
    if busy: "\<forall>k \<le> 5. inUseAt env k"
  proof -
    from busy have b: "\<forall>k \<le> maxAttempts. inUseAt env k"
      by (simp add: maxAttempts_def)
    have r0: "r = freePortLoop env 0 initialDelay False (ownersHeld env 0) tr0"
      by (simp add: r_def pids_def)
    note lb = loop_busy [OF b m0, of initialDelay tr0, folded r0]
    from lb have nf: "\<not> fst r"
      by simp
    have tip: "ElevatedTip \<notin> set (snd r)"
      using loop_tip [OF m0, of env initialDelay pids tr0] by (simp add: r_def tr0_def)
    show ?thesis
    proof (intro conjI allI impI)
      show "fst (freePort env port) = Inl (FreeFailed port 5)"
        using nf by (simp add: fp maxAttempts_def)
      show "waits (snd (freePort env port)) = [500, 1000, 2000, 4000, 5000]"
        using lb nf by (simp add: tr wt tr0_def backoff_full)
      show "(ElevatedTip \<in> set (snd (freePort env port))) = (\<not> elevated env)"
        using nf tip by (simp add: tr tail_def)
    next
      fix a :: nat assume "1 \<le> a \<and> a \<le> 5"
      then have "0 < a \<and> a \<le> maxAttempts"
        by (simp add: maxAttempts_def)
      with lb have "killsIn a (snd r) = killsIn a tr0 @ map (Pair (killMethod a))
          (ownersHeld env (a - 1))"
        by blast
      then show "killsIn a (snd (freePort env port))
           = map (Pair (killMethod a)) (ownersHeld env (a - 1))"
        using nf by (simp add: tr kt tr0_def)
    qed
  qed
  from c1 c2 c3 c4 show ?thesis
    by blast
qed

text \<open>
  A port that never frees, and whose owner is joined by a second one after two attempts.
\<close>

theorem freePort_bounded_backoff_witness:
  "fst (freePort stubborn_env 4000) = Inl (FreeFailed 4000 5) \<and>
   waits (snd (freePort stubborn_env 4000)) = [500, 1000, 2000, 4000, 5000] \<and>
   killsIn 1 (snd (freePort stubborn_env 4000)) = [(Graceful, ''4242'')] \<and>
   killsIn 2 (snd (freePort stubborn_env 4000)) = [(Sigkill, ''4242'')] \<and>
   killsIn 3 (snd (freePort stubborn_env 4000)) = [(ForceKill, ''4242''), (ForceKill, ''5151'')] \<and>
   recheckedAfterWait (snd (freePort stubborn_env 4000)) \<and>
   ElevatedTip \<in> set (snd (freePort stubborn_env 4000))"
proof -
  have busy: "\<forall>k \<le> 5. inUseAt stubborn_env k"
    by (simp add: stubborn_env_def)
  have owned: "ownersAt stubborn_env 0 \<noteq> []"
    by (simp add: stubborn_env_def)
  have held: "ownersHeld stubborn_env 0 = [''4242'']" "ownersHeld stubborn_env 1 = [''4242'']"
    "ownersHeld stubborn_env 2 = [''4242'', ''5151'']"
    by (simp_all add: stubborn_env_def nextPids_def eval_nat_numeral)
  have low: "\<not> elevated stubborn_env"
    by (simp add: stubborn_env_def)
  from freePort_bounded_backoff [of stubborn_env 4000] busy owned
  have all: "fst (freePort stubborn_env 4000) = Inl (FreeFailed 4000 5)"
    "waits (snd (freePort stubborn_env 4000)) = [500, 1000, 2000, 4000, 5000]"
    "\<forall>a. 1 \<le> a \<and> a \<le> 5 \<longrightarrow> killsIn a (snd (freePort stubborn_env 4000))
           = map (Pair (killMethod a)) (ownersHeld stubborn_env (a - 1))"
    "recheckedAfterWait (snd (freePort stubborn_env 4000))"
    "ElevatedTip \<in> set (snd (freePort stubborn_env 4000)) \<longleftrightarrow> \<not> elevated stubborn_env"
    by blast+
  from all(3) have "killsIn 1 (snd (freePort stubborn_env 4000))
           = map (Pair (killMethod 1)) (ownersHeld stubborn_env (1 - 1))"
    "killsIn 2 (snd (freePort stubborn_env 4000))
           = map (Pair (killMethod 2)) (ownersHeld stubborn_env (2 - 1))"
    "killsIn 3 (snd (freePort stubborn_env 4000))
           = map (Pair (killMethod 3)) (ownersHeld stubborn_env (3 - 1))"
    by simp_all
  with all held low show ?thesis
    by (simp add: killMethod_def)
qed

text \<open>
  Claim C9. On a port that is not in use, \<open>freePort\<close> returns normally after the one
  initial check: no process is signalled and nothing is waited for.
\<close>

theorem freePort_free_port_returns:
  "\<not> inUseAt env 0 \<Longrightarrow>
   freePort env port = (Inr (), [IsPortInUse]) \<and>
   waits (snd (freePort env port)) = [] \<and>
   (\<forall>a. killsIn a (snd (freePort env port)) = [])"
  by (simp add: freePort_def)

text \<open>
  A free port.
\<close>

theorem freePort_free_port_returns_witness:
  "\<not> inUseAt free_env 0 \<and> freePort free_env 3000 = (Inr (), [IsPortInUse]) \<and>
   waits (snd (freePort free_env 3000)) = []"
proof -
  have free: "\<not> inUseAt free_env 0"
    by (simp add: free_env_def)
  from freePort_free_port_returns [OF free, of 3000] free show ?thesis
    by simp
qed

section \<open>Properties of the service state machine\<close>

lemma error_entered_only_by:
  assumes "state s \<noteq> ERROR" and "state (service_step s ev) = ERROR"
  shows "(\<exists>env. ev = Start env \<and> state s = STOPPED) \<or> (\<exists>code. ev = Exit code \<and> state s = RUNNING)"
  using assms
  by (cases ev)
    (auto simp: service_start_def start_try_def service_stop_def stop_begin_def stop_finish_def
      process_exit_def setState_def Let_def split: if_splits option.splits prod.splits sum.splits)

text \<open>
  Claim C4. In every state of a service: \<open>start\<close> outside \<open>stopped\<close> returns at once and
  changes nothing; \<open>stop\<close> in \<open>stopped\<close> returns at once and changes nothing; the exit
  of the process while \<open>running\<close> moves the service to \<open>error\<close>; the same exit while
  \<open>stopping\<close> changes nothing, so a \<open>stop\<close> during which the process exits does not end
  in \<open>error\<close>. The state \<open>error\<close> is entered only by a failed \<open>start\<close> or by an exit
  while \<open>running\<close>.
\<close>

theorem service_state_machine:
  "(state s \<noteq> STOPPED \<longrightarrow> service_start env s = (Inr (), s)) \<and>
   (state s = STOPPED \<longrightarrow> service_stop k s = (Inr (), s)) \<and>
   (state s = RUNNING \<longrightarrow> state (process_exit code s) = ERROR) \<and>
   (state s = STOPPING \<longrightarrow> process_exit code s = s) \<and>
   (state s \<noteq> STOPPED \<longrightarrow>
      state (snd (stop_begin s)) = STOPPING \<and>
      state (snd (stop_finish k (process_exit code (snd (stop_begin s))))) \<noteq> ERROR) \<and>
   (\<forall>ev. state s \<noteq> ERROR \<and> state (service_step s ev) = ERROR \<longrightarrow>
      (\<exists>env'. ev = Start env' \<and> state s = STOPPED) \<or>
      (\<exists>code'. ev = Exit code' \<and> state s = RUNNING))"
proof (intro conjI allI impI)
  show "state s \<noteq> STOPPED \<Longrightarrow> service_start env s = (Inr (), s)"
    by (simp add: service_start_def)
  show "state s = STOPPED \<Longrightarrow> service_stop k s = (Inr (), s)"
    by (simp add: service_stop_def stop_begin_def)
  show "state s = RUNNING \<Longrightarrow> state (process_exit code s) = ERROR"
    by (simp add: process_exit_def setState_def)
  show "state s = STOPPING \<Longrightarrow> process_exit code s = s"
    by (simp add: process_exit_def)
  show "state s \<noteq> STOPPED \<Longrightarrow> state (snd (stop_begin s)) = STOPPING"
    by (simp add: stop_begin_def setState_def)
  show "state s \<noteq> STOPPED \<Longrightarrow>
      state (snd (stop_finish k (process_exit code (snd (stop_begin s))))) \<noteq> ERROR"
    by (simp add: stop_begin_def stop_finish_def process_exit_def setState_def
        split: option.splits)
next
  fix ev
  assume "state s \<noteq> ERROR \<and> state (service_step s ev) = ERROR"
  then show "(\<exists>env'. ev = Start env' \<and> state s = STOPPED) \<or>
      (\<exists>code'. ev = Exit code' \<and> state s = RUNNING)"
    using error_entered_only_by [of s ev] by blast
qed

text \<open>
  A backend service that was started and is running, and one that was never started.
\<close>

theorem service_state_machine_witness:
  "state running_service = RUNNING \<and>
   service_start ready_env running_service = (Inr (), running_service) \<and>
   state (process_exit (Some 1) running_service) = ERROR \<and>
   state (snd (stop_begin running_service)) = STOPPING \<and>
   process_exit (Some 1) (snd (stop_begin running_service)) = snd (stop_begin running_service) \<and>
   state (new_service ''backend'' (Some 4000)) = STOPPED \<and>
   service_stop None (new_service ''backend'' (Some 4000))
     = (Inr (), new_service ''backend'' (Some 4000))"
proof -
  have run: "state running_service = RUNNING"
    by (simp add: running_service_def service_start_def start_try_def new_service_def
        ready_env_def setState_def Let_def)
  then have ns: "state running_service \<noteq> STOPPED"
    by simp
  have stopped: "state (new_service ''backend'' (Some 4000)) = STOPPED"
    by (simp add: new_service_def)
  note m = service_state_machine [of running_service ready_env None "Some 1"]
  from m ns have a: "service_start ready_env running_service = (Inr (), running_service)"
    by blast
  from m run have b: "state (process_exit (Some 1) running_service) = ERROR"
    by blast
  from m ns have c: "state (snd (stop_begin running_service)) = STOPPING"
    by blast
  from service_state_machine [of "snd (stop_begin running_service)" ready_env None "Some 1"] c
  have d: "process_exit (Some 1) (snd (stop_begin running_service)) = snd (stop_begin running_service)"
    by blast
  from service_state_machine [of "new_service ''backend'' (Some 4000)" ready_env None "Some 1"] stopped
  have e: "service_stop None (new_service ''backend'' (Some 4000))
     = (Inr (), new_service ''backend'' (Some 4000))"
    by blast
  from run a b c d e stopped show ?thesis
    by blast
qed

section \<open>Properties of shutdown\<close>

lemma killAllCount_append [simp]:
  "killAllCount (xs @ ys) = killAllCount xs + killAllCount ys"
  by (induction xs rule: killAllCount.induct) simp_all

lemma killAllCount_concat:
  "(\<And>x. x \<in> set xs \<Longrightarrow> killAllCount (f x) = 0) \<Longrightarrow> killAllCount (concat (map f xs)) = 0"
  by (induction xs) simp_all

lemma killAllCount_replicate [simp]: "killAllCount (replicate n AlreadyInProgress) = 0"
  by (induction n) simp_all

lemma processExited_logged:
  "processExited (logged es orc) = (processExited orc \<or> list_ex isProcessExit es)"
  by (simp add: processExited_def logged_def)

lemma beginServices_frame:
  "isShuttingDown (beginServices orc) = isShuttingDown orc"
  "inProgress (beginServices orc) = inProgress orc"
  "effects (beginServices orc) = effects orc"
  "length (services (beginServices orc)) = length (services orc)"
  by (simp_all add: beginServices_def)

lemma finishServices_frame:
  "isShuttingDown (finishServices env orc) = isShuttingDown orc"
  "inProgress (finishServices env orc) = inProgress orc"
  "configWatcher (finishServices env orc) = configWatcher orc"
  "killAllCount (effects (finishServices env orc)) = killAllCount (effects orc)"
  by (simp_all add: finishServices_def logged_def Let_def)
    (rule killAllCount_concat, auto split: sum.splits prod.splits if_splits)

lemma finishServices_nth:
  "i < length (services orc) \<Longrightarrow>
   services (finishServices env orc) ! i =
     (if state (services orc ! i) = STOPPING
      then snd (stop_finish (killOutcomeAt env i) (services orc ! i))
      else services orc ! i)"
  by (simp add: finishServices_def logged_def Let_def nth_enumerate_eq)

lemma stop_prefix_then_finish:
  "(if state (stop_prefix s) = STOPPING then snd (stop_finish k (stop_prefix s))
    else stop_prefix s) = snd (service_stop k s)"
  by (auto simp: stop_prefix_def service_stop_def stop_begin_def stop_finish_def setState_def
      split: option.splits)

lemma stop_sequence_frame:
  "inProgress (snd (stop_sequence env orc)) = inProgress orc - 1"
  "killAllCount (effects (snd (stop_sequence env orc))) = killAllCount (effects orc) + 1"
  "services (snd (stop_sequence env orc)) = services (finishServices env orc)"
  by (simp_all add: stop_sequence_def logged_def Let_def finishServices_frame
      split: option.splits)

lemma shutdown_sequence_frame:
  "inProgress (snd (shutdown_sequence opts env orc)) = inProgress orc - 1"
  "killAllCount (effects (snd (shutdown_sequence opts env orc))) = killAllCount (effects orc) + 1"
  "services (snd (shutdown_sequence opts env orc)) = services (finishServices env orc)"
  by (simp_all add: shutdown_sequence_def shutdown_try_def logged_def Let_def
      finishServices_frame split: option.splits)

text \<open>
  What does hold of the flag. A call of \<open>stop\<close>, or of the manager's \<open>shutdown\<close>, that
  finds \<open>isShuttingDown\<close> set returns at once and starts nothing (the manager logs a
  warning); at most one sequence is in progress at a time; overlapping calls of either
  run the sequence once; and in a whole call of \<open>stop\<close> each service is stopped with the
  outcome of its own kill, whichever other services fail.
\<close>

lemma stop_enter_dropped: "isShuttingDown orc \<Longrightarrow> stop_enter orc = (False, orc)"
  by (simp add: stop_enter_def)

lemma shutdown_enter_dropped:
  "isShuttingDown orc \<Longrightarrow> shutdown_enter orc = (False, logged [AlreadyInProgress] orc)"
  by (simp add: shutdown_enter_def)

lemma stop_enter_frame:
  assumes "\<not> isShuttingDown orc"
  shows "isShuttingDown (snd (stop_enter orc))"
    and "inProgress (snd (stop_enter orc)) = inProgress orc + 1"
    and "killAllCount (effects (snd (stop_enter orc))) = killAllCount (effects orc)"
    and "processExited (snd (stop_enter orc)) = processExited orc"
    and "services (snd (stop_enter orc)) = map stop_prefix (services orc)"
  using assms
  by (simp_all add: stop_enter_def Let_def beginServices_def logged_def processExited_def)

lemma shutdown_enter_frame:
  assumes "\<not> isShuttingDown orc"
  shows "isShuttingDown (snd (shutdown_enter orc))"
    and "inProgress (snd (shutdown_enter orc)) = inProgress orc + 1"
    and "killAllCount (effects (snd (shutdown_enter orc))) = killAllCount (effects orc)"
    and "processExited (snd (shutdown_enter orc)) = processExited orc"
    and "services (snd (shutdown_enter orc)) = map stop_prefix (services orc)"
  using assms
  by (simp_all add: shutdown_enter_def Let_def beginServices_def logged_def processExited_def)

lemma exited_is_final: "processExited orc \<Longrightarrow> shutdown_run evs orc = orc"
  unfolding shutdown_run_def
  by (induction evs) (simp_all add: shutdown_step_def)

lemma whole_stop_services:
  assumes "\<not> isShuttingDown orc" and "i < length (services orc)"
  shows "services (snd (orchestrator_stop env orc)) ! i
           = snd (service_stop (killOutcomeAt env i) (services orc ! i))"
proof -
  define orc1 where "orc1 = snd (stop_enter orc)"
  have sv: "services orc1 = map stop_prefix (services orc)"
    using assms(1) by (simp add: orc1_def stop_enter_frame)
  have "orchestrator_stop env orc = stop_sequence env orc1"
    using assms(1) by (simp add: orchestrator_stop_def orc1_def stop_enter_def Let_def)
  then have "services (snd (orchestrator_stop env orc)) ! i
      = services (finishServices env orc1) ! i"
    by (simp add: stop_sequence_frame)
  also have "\<dots> = (if state (stop_prefix (services orc ! i)) = STOPPING
      then snd (stop_finish (killOutcomeAt env i) (stop_prefix (services orc ! i)))
      else stop_prefix (services orc ! i))"
    using assms(2) by (simp add: finishServices_nth sv)
  also have "\<dots> = snd (service_stop (killOutcomeAt env i) (services orc ! i))"
    by (rule stop_prefix_then_finish)
  finally show ?thesis .
qed

lemma orchestrator_shutdown_enter_cases:
  "isShuttingDown orc \<Longrightarrow> orchestrator_shutdown_enter orc = (False, logged [ProcessExit 0] orc)"
  "\<not> isShuttingDown orc \<Longrightarrow> orchestrator_shutdown_enter orc = (True, snd (stop_enter orc))"
  by (simp_all add: orchestrator_shutdown_enter_def stop_enter_def Let_def)

lemma orchestrator_shutdown_resume_frame:
  "inProgress (snd (orchestrator_shutdown_resume env orc)) = inProgress orc - 1"
  "killAllCount (effects (snd (orchestrator_shutdown_resume env orc)))
     = killAllCount (effects orc) + 1"
  using stop_sequence_frame(1,2) [of env orc]
  by (auto simp: orchestrator_shutdown_resume_def logged_def split: prod.splits sum.splits)

lemma no_exit_replicate [simp]: "\<not> list_ex isProcessExit (replicate n AlreadyInProgress)"
  by (induction n) simp_all

lemma shutdown_step_inv: "shutdown_inv orc \<Longrightarrow> shutdown_inv (shutdown_step orc ev)"
proof (cases "processExited orc")
  case True
  then show "shutdown_inv orc \<Longrightarrow> ?thesis"
    by (simp add: shutdown_step_def)
next
  case False
  assume inv: "shutdown_inv orc"
  have "shutdown_inv (live_step orc ev)"
  proof (cases "isShuttingDown orc")
    case True
    with inv show ?thesis
      by (cases ev)
        (auto simp: shutdown_inv_def stop_enter_dropped shutdown_enter_dropped logged_def
          orchestrator_shutdown_enter_cases orchestrator_shutdown_resume_frame
          stop_sequence_frame shutdown_sequence_frame)
  next
    case idle: False
    with inv have zero: "inProgress orc = 0"
      by (auto simp: shutdown_inv_def)
    from idle zero show ?thesis
      by (cases ev)
        (auto simp: shutdown_inv_def stop_enter_frame shutdown_enter_frame
          orchestrator_shutdown_enter_cases)
  qed
  with False show ?thesis
    by (simp add: shutdown_step_def)
qed

lemma shutdown_run_inv: "shutdown_inv orc \<Longrightarrow> shutdown_inv (shutdown_run evs orc)"
  unfolding shutdown_run_def
  by (induction evs arbitrary: orc) (simp_all add: shutdown_step_inv)

lemma repeated_stop_dropped:
  "isShuttingDown orc \<Longrightarrow> foldl shutdown_step orc (replicate n CallStop) = orc"
  by (induction n) (simp_all add: shutdown_step_def stop_enter_dropped)

lemma repeated_shutdown_dropped:
  "isShuttingDown orc \<Longrightarrow> \<not> processExited orc \<Longrightarrow>
   foldl shutdown_step orc (replicate n CallShutdown)
     = logged (replicate n AlreadyInProgress) orc"
proof (induction n arbitrary: orc)
  case 0
  then show ?case by (simp add: logged_def)
next
  case (Suc n)
  then have "isShuttingDown (logged [AlreadyInProgress] orc)"
    "\<not> processExited (logged [AlreadyInProgress] orc)"
    by (simp_all add: logged_def processExited_def)
  from Suc.IH [OF this] Suc.prems show ?case
    by (simp add: shutdown_step_def shutdown_enter_dropped logged_def)
qed

lemma stop_overlapping_once:
  assumes "\<not> isShuttingDown orc" and "\<not> processExited orc"
  shows "killAllCount (effects (shutdown_run (CallStop # replicate n CallStop @ [SettleStop env]) orc))
           = killAllCount (effects orc) + 1"
proof -
  define orc1 where "orc1 = snd (stop_enter orc)"
  note fr = stop_enter_frame [OF assms(1), folded orc1_def]
  have live: "\<not> processExited orc1"
    using fr assms(2) by simp
  have "shutdown_run (CallStop # replicate n CallStop @ [SettleStop env]) orc
      = snd (stop_sequence env orc1)"
    using fr live assms(2)
    by (simp add: shutdown_run_def shutdown_step_def orc1_def [symmetric] repeated_stop_dropped)
  then show ?thesis
    using fr by (simp add: stop_sequence_frame)
qed

lemma manager_overlapping_once:
  assumes "\<not> isShuttingDown orc" and "\<not> processExited orc"
  shows "killAllCount (effects (shutdown_run
           (CallShutdown # replicate n CallShutdown @ [SettleShutdown opts env]) orc))
           = killAllCount (effects orc) + 1"
proof -
  define orc1 where "orc1 = snd (shutdown_enter orc)"
  define orc2 where "orc2 = logged (replicate n AlreadyInProgress) orc1"
  note fr = shutdown_enter_frame [OF assms(1), folded orc1_def]
  have live: "\<not> processExited orc1"
    using fr assms(2) by simp
  have two: "\<not> processExited orc2" "inProgress orc2 \<noteq> 0"
    "killAllCount (effects orc2) = killAllCount (effects orc)"
    using fr live by (simp_all add: orc2_def processExited_logged, simp_all add: logged_def)
  have "shutdown_run (CallShutdown # replicate n CallShutdown @ [SettleShutdown opts env]) orc
      = snd (shutdown_sequence opts env orc2)"
    using fr live assms(2) two
    by (simp add: shutdown_run_def shutdown_step_def orc1_def [symmetric]
        repeated_shutdown_dropped orc2_def [symmetric])
  then show ?thesis
    using two by (simp add: shutdown_sequence_frame)
qed

lemma after_two_calls:
  "shutdown_run [CallOrchestratorShutdown, CallOrchestratorShutdown] started_orchestrator
     = \<lparr> isShuttingDown = True, syncEngine = False,
         services = map stop_prefix three_services, configWatcher = True,
         linkedPackages = [''@myorg/api-client''], inProgress = 1,
         effects = [SyncEngineStop, ProcessExit 0] \<rparr>"
  by (simp add: shutdown_run_def shutdown_step_def processExited_def started_orchestrator_def
      orchestrator_shutdown_enter_def stop_enter_def beginServices_def logged_def Let_def)

lemma three_services_stopping:
  "map (state \<circ> stop_prefix) three_services = [STOPPING, STOPPING, STOPPING]"
  by (simp add: three_services_def running_service_def service_start_def start_try_def
      new_service_def ready_env_def setState_def stop_prefix_def stop_begin_def Let_def)

text \<open>
  Claim C8. The claim asks that a \<open>shutdown\<close> call made while the stop sequence is in
  progress returns at once and that the sequence runs all the same, once. In
  \<open>orchestrator.ts\<close> it does not: \<open>shutdown\<close> is \<open>await this.stop(); process.exit(0)\<close>,
  and when \<open>stop\<close> returns at its flag test the exit follows at once. After two
  overlapping calls on a started orchestrator the process has exited while the first
  sequence is still suspended at its first \<open>await\<close>: the services were told to stop and
  are \<open>stopping\<close>, the packages are still linked, the config watcher is still open, and
  whatever is scheduled afterwards, \<open>killAll\<close> is called zero times.
\<close>

theorem orchestrator_shutdown_exits_mid_sequence:
  "effects (shutdown_run [CallOrchestratorShutdown, CallOrchestratorShutdown]
      started_orchestrator) = [SyncEngineStop, ProcessExit 0] \<and>
   inProgress (shutdown_run [CallOrchestratorShutdown, CallOrchestratorShutdown]
      started_orchestrator) = 1 \<and>
   map state (services (shutdown_run [CallOrchestratorShutdown, CallOrchestratorShutdown]
      started_orchestrator)) = [STOPPING, STOPPING, STOPPING] \<and>
   linkedPackages (shutdown_run [CallOrchestratorShutdown, CallOrchestratorShutdown]
      started_orchestrator) = [''@myorg/api-client''] \<and>
   configWatcher (shutdown_run [CallOrchestratorShutdown, CallOrchestratorShutdown]
      started_orchestrator) \<and>
   killAllCount (effects (shutdown_run
      ([CallOrchestratorShutdown, CallOrchestratorShutdown] @ evs) started_orchestrator)) = 0"
proof -
  let ?orc = "shutdown_run [CallOrchestratorShutdown, CallOrchestratorShutdown]
      started_orchestrator"
  have "processExited ?orc"
    by (simp add: after_two_calls processExited_def)
  then have "shutdown_run evs ?orc = ?orc"
    by (rule exited_is_final)
  then have "shutdown_run ([CallOrchestratorShutdown, CallOrchestratorShutdown] @ evs)
      started_orchestrator = ?orc"
    by (simp only: shutdown_run_def foldl_append)
  then show ?thesis
    by (simp add: after_two_calls three_services_stopping)
qed

text \<open>
  A single call of that \<open>shutdown\<close> runs the sequence once before it exits.
\<close>

lemma single_orchestrator_shutdown:
  assumes "\<not> isShuttingDown orc" and "\<not> processExited orc"
  shows "killAllCount (effects (shutdown_run
           [CallOrchestratorShutdown, SettleOrchestratorShutdown env] orc))
           = killAllCount (effects orc) + 1"
proof -
  define orc1 where "orc1 = snd (stop_enter orc)"
  note fr = stop_enter_frame [OF assms(1), folded orc1_def]
  have enter: "snd (orchestrator_shutdown_enter orc) = orc1"
    using assms(1) by (simp add: orchestrator_shutdown_enter_cases orc1_def)
  have "shutdown_run [CallOrchestratorShutdown, SettleOrchestratorShutdown env] orc
      = snd (orchestrator_shutdown_resume env orc1)"
    using fr assms(2) by (simp add: shutdown_run_def shutdown_step_def enter)
  then show ?thesis
    using fr by (simp add: orchestrator_shutdown_resume_frame)
qed

section \<open>Properties of the change detector\<close>

lemma sort_key_permuted:
  assumes "mset xs = mset ys" and "distinct (map fst xs)"
  shows "sort_key fst xs = sort_key fst ys"
proof (rule sort_key_inj_key_eq)
  show "mset xs = mset (sort_key fst ys)"
    using assms(1) by simp
  show "inj_on fst (set xs)"
    using assms(2) by (simp add: distinct_map)
  show "sorted (map fst (sort_key fst ys))"
    by simp
qed

lemma whitespaceOnly_strip:
  "whitespaceOnly a b \<Longrightarrow> stripWhitespace a = stripWhitespace b"
  by (induction rule: whitespaceOnly.induct) (simp_all add: stripWhitespace_def)

lemma orderOrWhitespace_normalizeSpec:
  "orderOrWhitespace a b \<Longrightarrow> normalizeSpec volatile a = normalizeSpec volatile b"
proof (induction rule: orderOrWhitespace.induct)
  case (same j)
  show ?case by simp
next
  case (strings a b)
  then show ?case by (simp add: whitespaceOnly_strip)
next
  case (arrays xs ys)
  then have "map (normalizeSpec volatile) xs = map (normalizeSpec volatile) ys"
    by (induction rule: list_all2_induct) simp_all
  then show ?case by simp
next
  case (objects kvs kvs' kvs'')
  let ?g = "\<lambda>(k, v). (k, normalizeSpec volatile v)"
  let ?keep = "\<lambda>(k, v). \<not> volatile k"
  from objects(1) have eq: "map ?g (filter ?keep kvs) = map ?g (filter ?keep kvs')"
    by (induction rule: list_all2_induct) (auto simp: case_prod_unfold)
  from objects(2) have "filter_mset ?keep (mset kvs') = filter_mset ?keep (mset kvs'')"
    by (rule arg_cong)
  then have "mset (filter ?keep kvs') = mset (filter ?keep kvs'')"
    by (simp only: mset_filter)
  then have "image_mset ?g (mset (filter ?keep kvs')) = image_mset ?g (mset (filter ?keep kvs''))"
    by (rule arg_cong)
  then have "mset (map ?g (filter ?keep kvs')) = mset (map ?g (filter ?keep kvs''))"
    by (simp only: mset_map)
  then have ms: "mset (map ?g (filter ?keep kvs)) = mset (map ?g (filter ?keep kvs''))"
    by (simp only: eq)
  have fg: "fst \<circ> ?g = fst"
    by (auto simp: fun_eq_iff)
  have "distinct (map fst (map ?g (filter ?keep kvs)))"
    using objects(3) by (simp add: fg distinct_map_filter)
  from sort_key_permuted [OF ms this] show ?case
    by simp
qed

lemma recorded_hash:
  "detector_getCurrentHash (snd (detector_hasSignificantChanges hash volatile doc det))
     = Some (signature hash volatile doc)"
  by (simp add: detector_hasSignificantChanges_def detector_getCurrentHash_def Let_def)

text \<open>
  Claim C7. Two documents that differ only in the order of object keys or in the white
  space of their strings have the same signature, whatever the hash and the volatile
  keys; so once a call of \<open>hasSignificantChanges\<close> on the one has recorded its signature,
  the call on the other returns false. The signature is deterministic: it depends on
  the normalized document alone, so two detectors, whatever each has seen before (two
  runs of the process), record the same hash for documents with the same normal form.
\<close>

theorem order_and_whitespace_not_significant:
  "(orderOrWhitespace a b \<longrightarrow>
      signature hash volatile a = signature hash volatile b \<and>
      fst (detector_hasSignificantChanges hash volatile b
             (snd (detector_hasSignificantChanges hash volatile a det))) = False) \<and>
   (normalizeSpec volatile c = normalizeSpec volatile d \<longrightarrow>
      signature hash volatile c = signature hash volatile d \<and>
      detector_getCurrentHash (snd (detector_hasSignificantChanges hash volatile c det))
        = detector_getCurrentHash (snd (detector_hasSignificantChanges hash volatile d det')))"
proof (intro conjI impI)
  assume "orderOrWhitespace a b"
  then have n: "normalizeSpec volatile a = normalizeSpec volatile b"
    by (rule orderOrWhitespace_normalizeSpec)
  then show "signature hash volatile a = signature hash volatile b"
    by (simp add: signature_def)
  with n show "fst (detector_hasSignificantChanges hash volatile b
             (snd (detector_hasSignificantChanges hash volatile a det))) = False"
    by (simp add: detector_hasSignificantChanges_def Let_def)
next
  assume n: "normalizeSpec volatile c = normalizeSpec volatile d"
  then show s: "signature hash volatile c = signature hash volatile d"
    by (simp add: signature_def)
  then show "detector_getCurrentHash (snd (detector_hasSignificantChanges hash volatile c det))
        = detector_getCurrentHash (snd (detector_hasSignificantChanges hash volatile d det'))"
    by (simp only: recorded_hash)
qed

text \<open>
  The petstore document, and the same with its keys reordered at every level and the
  white space of its title changed; the second detector has seen another document
  before.
\<close>

theorem order_and_whitespace_not_significant_witness:
  "orderOrWhitespace petstore petstore_reformatted \<and> petstore \<noteq> petstore_reformatted \<and>
   signature keyNames (\<lambda>k. False) petstore
     = signature keyNames (\<lambda>k. False) petstore_reformatted \<and>
   fst (detector_hasSignificantChanges keyNames (\<lambda>k. False) petstore
          \<lparr> lastSignature = None \<rparr>) = True \<and>
   fst (detector_hasSignificantChanges keyNames (\<lambda>k. False) petstore_reformatted
          (snd (detector_hasSignificantChanges keyNames (\<lambda>k. False) petstore
                  \<lparr> lastSignature = None \<rparr>))) = False \<and>
   detector_getCurrentHash (snd (detector_hasSignificantChanges keyNames (\<lambda>k. False)
          petstore \<lparr> lastSignature = None \<rparr>))
     = detector_getCurrentHash (snd (detector_hasSignificantChanges keyNames (\<lambda>k. False)
          petstore_reformatted \<lparr> lastSignature = Some ''paths'' \<rparr>))"
proof -
  have title: "orderOrWhitespace (JStr ''Pet Store'') (JStr ''Pet  Store '')"
    by (rule orderOrWhitespace.strings)
      (intro whitespaceOnly.both,
       rule whitespaceOnly.right, simp add: isWhitespace_def,
       intro whitespaceOnly.both,
       rule whitespaceOnly.right, simp add: isWhitespace_def,
       rule whitespaceOnly.empty)
  have inner: "orderOrWhitespace
      (JObj [(''/users'', JObj [(''get'', JNull)]), (''/pets'', JNull)])
      (JObj [(''/pets'', JNull), (''/users'', JObj [(''get'', JNull)])])"
    by (rule orderOrWhitespace.objects
        [where kvs' = "[(''/users'', JObj [(''get'', JNull)]), (''/pets'', JNull)]"])
      (simp_all add: orderOrWhitespace.same)
  have perm: "orderOrWhitespace petstore petstore_reformatted"
    unfolding petstore_def petstore_reformatted_def
    by (rule orderOrWhitespace.objects
        [where kvs' = "[(''openapi'', JStr ''3.0.0''), (''title'', JStr ''Pet  Store ''),
           (''paths'', JObj [(''/pets'', JNull), (''/users'', JObj [(''get'', JNull)])])]"])
      (simp_all add: orderOrWhitespace.same inner title)
  have diff: "petstore \<noteq> petstore_reformatted"
    by (simp add: petstore_def petstore_reformatted_def)
  have first: "fst (detector_hasSignificantChanges keyNames (\<lambda>k. False) petstore
          \<lparr> lastSignature = None \<rparr>) = True"
    by (simp add: detector_hasSignificantChanges_def Let_def)
  note k = order_and_whitespace_not_significant [of petstore petstore_reformatted keyNames
      "\<lambda>k. False" "\<lparr> lastSignature = None \<rparr>" petstore petstore_reformatted
      "\<lparr> lastSignature = Some ''paths'' \<rparr>"]
  from k perm have sig: "signature keyNames (\<lambda>k. False) petstore
     = signature keyNames (\<lambda>k. False) petstore_reformatted"
    and second: "fst (detector_hasSignificantChanges keyNames (\<lambda>k. False)
          petstore_reformatted
          (snd (detector_hasSignificantChanges keyNames (\<lambda>k. False) petstore
                  \<lparr> lastSignature = None \<rparr>))) = False"
    by blast+
  have norm: "normalizeSpec (\<lambda>k. False) petstore
      = normalizeSpec (\<lambda>k. False) petstore_reformatted"
    using perm by (rule orderOrWhitespace_normalizeSpec)
  from k norm have runs: "detector_getCurrentHash (snd (detector_hasSignificantChanges keyNames
          (\<lambda>k. False) petstore \<lparr> lastSignature = None \<rparr>))
     = detector_getCurrentHash (snd (detector_hasSignificantChanges keyNames (\<lambda>k. False)
          petstore_reformatted \<lparr> lastSignature = Some ''paths'' \<rparr>))"
    by blast
  from perm diff sig first second runs show ?thesis
    by (intro conjI)
qed

end
